theory Spec2Isabelle
  imports Complex_Main "HOL-Library.Word" "HOL-Library.Signed_Division"
    "HOL-Library.Char_ord" "HOL-Library.List_Lexorder" "HOL-Library.Multiset"
begin

section \<open>Common types\<close>

text \<open>
  Go strings and byte slices are sequences of bytes: they are modelled as \<open>string\<close>
  (a list of 8-bit \<open>char\<close>). Go's \<open>int\<close> is modelled as \<open>int\<close>: the counters and
  indices of this program count bytes of a file, nodes of a tree and terminal rows, all far
  from the 64-bit limits. The one \<open>int64\<close> computation a claim is about (the token
  estimate) is modelled on \<open>64 word\<close>.

  Every \<open>panic\<close> of the source is a value of the type \<open>panic\<close>; a function that may
  panic returns \<open>panic + 'a\<close>.
\<close>

datatype panic =
    PanicIO                \<comment> \<open>\<open>panic(err)\<close> after a failed read, open or command\<close>
  | PanicAddChildOnFile    \<comment> \<open>\<open>panic("addChild on file node")\<close>\<close>
  | PanicIndex             \<comment> \<open>run-time panic: index out of range\<close>
  | PanicNilDeref          \<comment> \<open>run-time panic: a pointer that names no node of the tree\<close>

definition backtick :: char where
  "backtick = CHR 0x60"

section \<open>FenceNegotiator: \<open>maxRunByteInReader\<close> and \<open>fenceForContent\<close>\<close>

text \<open>
  An \<open>io.Reader\<close> that ends is a finite sequence of successful reads followed by one read
  that returns an error: \<open>io.EOF\<close> or a failure. \<open>Reader chunks lastc err\<close> delivers
  each element of \<open>chunks\<close> with a nil error, then \<open>lastc\<close> together with \<open>err\<close>
  (for an \<open>os.File\<close>, \<open>lastc\<close> is empty). A chunk may be empty (\<open>n = 0\<close>).
\<close>

datatype io_error = EOF | IOFailure

datatype reader = Reader (chunks: "string list") (last_chunk: string) (last_err: io_error)

definition content :: "reader \<Rightarrow> string" where
  "content r = concat (chunks r) @ last_chunk r"

text \<open>
  The inner loop of \<open>maxRunByteInReader\<close> over one buffer; the state is the pair
  \<open>(run, maxRun)\<close>, which lives across the reads.
\<close>

fun scan_buf :: "string \<Rightarrow> char \<Rightarrow> int \<times> int \<Rightarrow> int \<times> int" where
  "scan_buf [] b (run, maxRun) = (run, maxRun)"
| "scan_buf (c # cs) b (run, maxRun) =
     (if c = b
      then (let run' = run + 1 in scan_buf cs b (run', if run' > maxRun then run' else maxRun))
      else scan_buf cs b (0, maxRun))"

text \<open>The outer \<open>for\<close> loop: one iteration per read, until a read returns an error.\<close>

fun read_loop :: "string list \<Rightarrow> string \<Rightarrow> io_error \<Rightarrow> char \<Rightarrow> int \<times> int \<Rightarrow> panic + int" where
  "read_loop [] lastc err b st =
     (let (run, maxRun) = scan_buf lastc b st
      in if err = EOF then Inr maxRun else Inl PanicIO)"
| "read_loop (ch # chs) lastc err b st = read_loop chs lastc err b (scan_buf ch b st)"

definition maxRunByteInReader :: "reader \<Rightarrow> char \<Rightarrow> panic + int" where
  "maxRunByteInReader r b = read_loop (chunks r) (last_chunk r) (last_err r) b (0, 0)"

definition fenceForContent :: "int \<Rightarrow> string" where
  "fenceForContent maxRun =
     (let n = maxRun + 1;
          n = (if n < 3 then 3 else n)
      in replicate (nat n) backtick)"

section \<open>Token estimate\<close>

text \<open>
  \<open>tokens = (size + 3) / 4\<close> on \<open>int64\<close>: the addition wraps (it is the addition of
  \<open>64 word\<close>) and the division is the truncating division \<open>sdiv\<close> of the signed values.
\<close>

definition token_estimate :: "64 word \<Rightarrow> 64 word" where
  "token_estimate sz = word_of_int (sint (sz + 3) sdiv 4)"

section \<open>Path and string functions of the Go standard library\<close>

text \<open>
  The functions of \<open>strings\<close> and \<open>path/filepath\<close> that the program calls, as documented
  for a Unix build (the separator is \<open>/\<close>, so \<open>FromSlash\<close> and \<open>ToSlash\<close> change nothing).
  \<open>strings.Split(s, "/")\<close> cuts at every separator and returns one more piece than there are
  separators; \<open>Split("", "/")\<close> is the one empty piece.
\<close>

fun split_on :: "char \<Rightarrow> string \<Rightarrow> string list" where
  "split_on sep [] = [[]]"
| "split_on sep (c # cs) =
     (if c = sep then [] # split_on sep cs
      else (case split_on sep cs of [] \<Rightarrow> [[c]] | p # ps \<Rightarrow> (c # p) # ps))"

definition strings_Split :: "string \<Rightarrow> string list" where
  "strings_Split s = split_on CHR ''/'' s"

definition strings_HasPrefix :: "string \<Rightarrow> string \<Rightarrow> bool" where
  "strings_HasPrefix s pre \<longleftrightarrow> take (length pre) s = pre"

definition strings_TrimPrefix :: "string \<Rightarrow> string \<Rightarrow> string" where
  "strings_TrimPrefix s pre = (if strings_HasPrefix s pre then drop (length pre) s else s)"

text \<open>
  \<open>filepath.Join\<close> drops empty elements, joins the rest with \<open>/\<close> and cleans the result;
  joining nothing gives the empty string. \<open>filepath.Clean\<close> drops empty and \<open>.\<close> elements,
  lets \<open>..\<close> remove the element before it (at the start it is dropped in a rooted path and
  kept in a relative one), and returns \<open>.\<close> for an empty result. \<open>clean_step\<close> handles one
  element; its accumulator is the stack of kept elements, the last one first.
\<close>

fun join_slash :: "string list \<Rightarrow> string" where
  "join_slash [] = []"
| "join_slash [s] = s"
| "join_slash (s # ss) = s @ CHR ''/'' # join_slash ss"

definition clean_step :: "bool \<Rightarrow> string list \<Rightarrow> string \<Rightarrow> string list" where
  "clean_step rooted acc seg =
     (if seg = [] \<or> seg = ''.'' then acc
      else if seg = ''..'' then
        (case acc of
           [] \<Rightarrow> (if rooted then [] else [''..''])
         | t # below \<Rightarrow> (if t = ''..'' then ''..'' # acc else below))
      else seg # acc)"

definition filepath_Clean :: "string \<Rightarrow> string" where
  "filepath_Clean path =
     (if path = [] then ''.''
      else let rooted = (hd path = CHR ''/'');
               out = join_slash (rev (foldl (clean_step rooted) [] (split_on CHR ''/'' path)))
           in if rooted then CHR ''/'' # out
              else if out = [] then ''.'' else out)"

definition filepath_Join :: "string \<Rightarrow> string \<Rightarrow> string" where
  "filepath_Join a b =
     (case filter (\<lambda>e. e \<noteq> []) [a, b] of
        [] \<Rightarrow> []
      | es \<Rightarrow> filepath_Clean (join_slash es))"

definition filepath_FromSlash :: "string \<Rightarrow> string" where
  "filepath_FromSlash p = p"

definition filepath_ToSlash :: "string \<Rightarrow> string" where
  "filepath_ToSlash p = p"

section \<open>Tree\<close>

text \<open>
  The struct \<open>node\<close>. A directory owns its children, and the tree is built top-down, so the
  tree of pointers is a datatype with the children as a list. Two fields of the struct are
  derived data and have no field of their own here:
  \<^item> \<open>parent\<close> is read only by \<open>newDir\<close> and \<open>newFile\<close>, which take the depth from it: the
    constructors receive the parent node itself (\<open>None\<close> for \<open>nil\<close>);
  \<^item> \<open>childMap\<close> is written by \<open>addChild\<close> only, together with \<open>children\<close>, under the name
    of the child; it is \<open>nil\<close> exactly for the nodes made by \<open>newFile\<close>. \<open>buildTree\<close> adds
    a child only after the lookup of its name has failed, so no name is stored twice, and the
    lookup \<open>child\<close> is the search of the name in \<open>children\<close>, failing on a file node.
\<close>

datatype node = Node (name: string) (relBase: string) (isDir: bool) (children: "node list")
  (depth: int) (expanded: bool) (selected: bool)

text \<open>Assignments to one field.\<close>

definition set_children :: "node list \<Rightarrow> node \<Rightarrow> node" where
  "set_children cs n = Node (name n) (relBase n) (isDir n) cs (depth n) (expanded n) (selected n)"

definition set_expanded :: "bool \<Rightarrow> node \<Rightarrow> node" where
  "set_expanded e n = Node (name n) (relBase n) (isDir n) (children n) (depth n) e (selected n)"

definition set_selected :: "bool \<Rightarrow> node \<Rightarrow> node" where
  "set_selected s n = Node (name n) (relBase n) (isDir n) (children n) (depth n) (expanded n) s"

definition newDir :: "node option \<Rightarrow> string \<Rightarrow> string \<Rightarrow> node" where
  "newDir parent nm rel =
     Node nm rel True [] (case parent of None \<Rightarrow> 0 | Some p \<Rightarrow> depth p + 1) False False"

definition newFile :: "node option \<Rightarrow> string \<Rightarrow> string \<Rightarrow> node" where
  "newFile parent nm rel =
     Node nm rel False [] (case parent of None \<Rightarrow> 0 | Some p \<Rightarrow> depth p + 1) False False"

text \<open>
  \<open>child\<close> returns the child together with its index in \<open>children\<close>: the index is what the
  pointer \<open>c\<close> of the source gives the caller, the place where the child is changed.
\<close>

fun child_index :: "string \<Rightarrow> node list \<Rightarrow> nat option" where
  "child_index nm [] = None"
| "child_index nm (c # cs) =
     (if name c = nm then Some 0 else map_option Suc (child_index nm cs))"

definition child :: "node \<Rightarrow> string \<Rightarrow> (nat \<times> node) option" where
  "child n nm =
     (if \<not> isDir n then None
      else (case child_index nm (children n) of
              None \<Rightarrow> None
            | Some i \<Rightarrow> Some (i, children n ! i)))"

definition addChild :: "node \<Rightarrow> node \<Rightarrow> panic + node" where
  "addChild n c =
     (if \<not> isDir n then Inl PanicAddChildOnFile
      else Inr (set_children (children n @ [c]) n))"

text \<open>
  The comparison that \<open>finalizeTree\<close> passes to \<open>sort.Slice\<close>, and \<open>sort.Slice\<close> as an
  insertion sort. \<open>sort.Slice\<close> promises an ordered permutation and nothing about elements
  that compare equal; siblings have distinct names, so no two of them compare equal.
\<close>

definition node_less :: "node \<Rightarrow> node \<Rightarrow> bool" where
  "node_less a b = (if isDir a \<noteq> isDir b then isDir a else name a < name b)"

fun insert_by :: "('a \<Rightarrow> 'a \<Rightarrow> bool) \<Rightarrow> 'a \<Rightarrow> 'a list \<Rightarrow> 'a list" where
  "insert_by lt x [] = [x]"
| "insert_by lt x (y # ys) = (if lt x y then x # y # ys else y # insert_by lt x ys)"

definition sort_Slice :: "('a \<Rightarrow> 'a \<Rightarrow> bool) \<Rightarrow> 'a list \<Rightarrow> 'a list" where
  "sort_Slice lt xs = foldr (insert_by lt) xs []"

function finalizeTree :: "node \<Rightarrow> node" where
  "finalizeTree n =
     (if \<not> isDir n then n
      else let cs = sort_Slice node_less (children n);
               cs = map finalizeTree cs
           in set_expanded (int (length cs) \<le> 32) (set_children cs n))"
  by pat_completeness auto
termination
proof (relation "measure size")
  show "wf (measure size)" by simp
next
  fix n :: node and cs c
  assume cs: "cs = sort_Slice node_less (children n)" and c: "c \<in> set cs"
  have ins: "set (insert_by node_less x ys) = insert x (set ys)" for x ys
    by (induction ys) auto
  have "set (sort_Slice node_less xs) = set xs" for xs
    by (induction xs) (auto simp: sort_Slice_def ins)
  with cs c have "c \<in> set (children n)" by simp
  then have "size c < size n"
    by (cases n) (auto simp: less_Suc_eq_le dest: size_list_estimation')
  then show "(c, n) \<in> measure size" by simp
qed

text \<open>
  The inner loop of \<open>buildTree\<close> over the segments of one path, starting at \<open>cur\<close>. The
  source moves the pointer \<open>cur\<close> down the tree and changes the nodes in place; here the
  changed subtree is returned and put back at the index it came from.
\<close>

fun insertParts :: "node \<Rightarrow> string list \<Rightarrow> panic + node" where
  "insertParts cur [] = Inr cur"
| "insertParts cur [part] =
     (case child cur part of
        Some _ \<Rightarrow> Inr cur
      | None \<Rightarrow>
          (let rel = filepath_Join (relBase cur) (filepath_FromSlash part);
               f = newFile (Some cur) part rel
           in addChild cur f))"
| "insertParts cur (part # rest) =
     (case child cur part of
        Some (i, c) \<Rightarrow>
          (case insertParts c rest of
             Inl e \<Rightarrow> Inl e
           | Inr c' \<Rightarrow> Inr (set_children ((children cur)[i := c']) cur))
      | None \<Rightarrow>
          (let rel = filepath_Join (relBase cur) (filepath_FromSlash part);
               d = newDir (Some cur) part rel
           in case addChild cur d of
                Inl e \<Rightarrow> Inl e
              | Inr cur' \<Rightarrow>
                  (case insertParts d rest of
                     Inl e \<Rightarrow> Inl e
                   | Inr d' \<Rightarrow>
                       Inr (set_children ((children cur')[length (children cur) := d']) cur'))))"

text \<open>The outer loop of \<open>buildTree\<close> over the file list, and \<open>buildTree\<close>.\<close>

fun build_loop :: "string \<Rightarrow> node \<Rightarrow> string list \<Rightarrow> panic + node" where
  "build_loop startRelSlash rt [] = Inr rt"
| "build_loop startRelSlash rt (full # files) =
     (if startRelSlash \<noteq> ''.'' \<and> \<not> strings_HasPrefix full (startRelSlash @ ''/'')
      then build_loop startRelSlash rt files
      else let within_p = (if startRelSlash \<noteq> ''.''
                         then strings_TrimPrefix full (startRelSlash @ ''/'') else full)
           in if within_p = [] then build_loop startRelSlash rt files
              else (case insertParts rt (strings_Split within_p) of
                      Inl e \<Rightarrow> Inl e
                    | Inr rt' \<Rightarrow> build_loop startRelSlash rt' files))"

definition buildTree :: "string \<Rightarrow> string list \<Rightarrow> panic + node" where
  "buildTree startRelSlash baseRelSlashFiles =
     (let rootRelOS = filepath_FromSlash startRelSlash;
          rt = newDir None startRelSlash rootRelOS
      in case build_loop startRelSlash rt baseRelSlashFiles of
           Inl e \<Rightarrow> Inl e
         | Inr rt' \<Rightarrow> Inr (finalizeTree rt'))"

section \<open>Visible sequence and session state\<close>

text \<open>
  \<open>flattenVisible\<close> returns pointers to nodes, and \<open>Update\<close> changes the tree through them.
  A pointer to a node of the tree is modelled by the position of the node: the list of child
  indices that leads to it from the root (\<open>[]\<close> is the root). After \<open>buildTree\<close> the shape
  of the tree never changes, so a position names the same node for the whole session, and two
  pointers are equal exactly when the positions are. \<open>node_at\<close> reads through a pointer and
  \<open>update_at\<close> writes through it.
\<close>

fun flattenVisible :: "node \<Rightarrow> nat list list"
  and walk_children :: "nat \<Rightarrow> node list \<Rightarrow> nat list list" where
  "flattenVisible (Node nm rel d cs dp ex sel) =
     [] # (if d \<and> ex then walk_children 0 cs else [])"
| "walk_children i [] = []"
| "walk_children i (c # cs) = map ((#) i) (flattenVisible c) @ walk_children (Suc i) cs"

fun node_at :: "node \<Rightarrow> nat list \<Rightarrow> node option" where
  "node_at n [] = Some n"
| "node_at n (i # p) =
     (if i < length (children n) then node_at (children n ! i) p else None)"

fun update_at :: "(node \<Rightarrow> node) \<Rightarrow> nat list \<Rightarrow> node \<Rightarrow> node" where
  "update_at f [] n = f n"
| "update_at f (i # p) n =
     (if i < length (children n)
      then set_children ((children n)[i := update_at f p (children n ! i)]) n
      else n)"

text \<open>\<open>indexOf\<close>: the first index that holds the target, 0 when there is none.\<close>

fun indexOf_from :: "int \<Rightarrow> nat list list \<Rightarrow> nat list \<Rightarrow> int" where
  "indexOf_from i [] target = 0"
| "indexOf_from i (p # ps) target = (if p = target then i else indexOf_from (i + 1) ps target)"

definition indexOf :: "nat list list \<Rightarrow> nat list \<Rightarrow> int" where
  "indexOf nodes target = indexOf_from 0 nodes target"

text \<open>
  The struct \<open>model\<close>, without the fields \<open>keys\<close> and \<open>help\<close>: the key map is the constant
  \<open>defaultKeyMap\<close>, and the help view only renders.
\<close>

record model =
  root_m :: node
  vis :: "nat list list"
  cursor :: int
  offset :: int
  width :: int
  height :: int
  base :: string
  inRepo :: bool
  allowBinary :: bool
  selectedCount :: int
  aborted :: bool
  confirmed :: bool

definition newModel :: "node \<Rightarrow> string \<Rightarrow> bool \<Rightarrow> bool \<Rightarrow> model" where
  "newModel rt b inR allowB =
     \<lparr> root_m = rt, vis = flattenVisible rt, cursor = 0, offset = 0, width = 0, height = 0,
       base = b, inRepo = inR, allowBinary = allowB, selectedCount = 0,
       aborted = False, confirmed = False \<rparr>"

definition viewportHeight :: "model \<Rightarrow> int" where
  "viewportHeight m = (let h = height m - 2 in if h < 1 then 1 else h)"

definition ensureCursorVisible :: "model \<Rightarrow> model" where
  "ensureCursorVisible m0 =
     (let vh = viewportHeight m0;
          m1 = (if cursor m0 < 0 then m0\<lparr>cursor := 0\<rparr> else m0);
          m2 = (if cursor m1 \<ge> int (length (vis m1))
                then (let m = m1\<lparr>cursor := int (length (vis m1)) - 1\<rparr>
                      in if cursor m < 0 then m\<lparr>cursor := 0\<rparr> else m)
                else m1);
          m3 = (if cursor m2 < offset m2 then m2\<lparr>offset := cursor m2\<rparr> else m2);
          m4 = (if cursor m3 \<ge> offset m3 + vh then m3\<lparr>offset := cursor m3 - vh + 1\<rparr> else m3);
          maxOffset = int (length (vis m4)) - vh;
          maxOffset = (if maxOffset < 0 then 0 else maxOffset);
          m5 = (if offset m4 > maxOffset then m4\<lparr>offset := maxOffset\<rparr> else m4)
      in if offset m5 < 0 then m5\<lparr>offset := 0\<rparr> else m5)"

text \<open>
  Messages: a resize with width and height, a key with the string that \<open>key.Matches\<close>
  compares with the keys of a binding, or anything else.
\<close>

datatype msg = WindowSizeMsg int int | KeyMsg string | OtherMsg

datatype cmd = NoCmd | Quit

record keyMap =
  Up :: "string list"
  Down :: "string list"
  Right :: "string list"
  Left :: "string list"
  Toggle :: "string list"
  Confirm :: "string list"
  QuitKey :: "string list"

definition defaultKeyMap :: keyMap where
  "defaultKeyMap =
     \<lparr> Up = [''up''], Down = [''down''], Right = [''right''], Left = [''left''],
       Toggle = ['' ''], Confirm = [''enter''], QuitKey = [''q'', ''esc''] \<rparr>"

definition key_Matches :: "string \<Rightarrow> string list \<Rightarrow> bool" where
  "key_Matches k binding \<longleftrightarrow> k \<in> set binding"

text \<open>
  \<open>n := m.vis[m.cursor]\<close>: the index expression panics out of range; the node is then read
  through the pointer.
\<close>

definition current_node :: "model \<Rightarrow> panic + (nat list \<times> node)" where
  "current_node m =
     (if 0 \<le> cursor m \<and> cursor m < int (length (vis m))
      then (let p = vis m ! nat (cursor m)
            in case node_at (root_m m) p of
                 None \<Rightarrow> Inl PanicNilDeref
               | Some n \<Rightarrow> Inr (p, n))
      else Inl PanicIndex)"

text \<open>The body shared by the expand and collapse branches: \<open>n.expanded = e\<close> and what follows.\<close>

definition set_expansion :: "bool \<Rightarrow> nat list \<Rightarrow> model \<Rightarrow> model" where
  "set_expansion e old m =
     (let m = m\<lparr>root_m := update_at (set_expanded e) old (root_m m)\<rparr>;
          m = m\<lparr>vis := flattenVisible (root_m m)\<rparr>;
          m = m\<lparr>cursor := indexOf (vis m) old\<rparr>
      in ensureCursorVisible m)"

definition Update :: "model \<Rightarrow> msg \<Rightarrow> panic + (model \<times> cmd)" where
  "Update m message =
     (case message of
        WindowSizeMsg w h \<Rightarrow>
          Inr (ensureCursorVisible (m\<lparr>width := w, height := h\<rparr>), NoCmd)
      | KeyMsg k \<Rightarrow>
          (if key_Matches k (QuitKey defaultKeyMap) then Inr (m\<lparr>aborted := True\<rparr>, Quit)
           else if key_Matches k (Up defaultKeyMap) then
             Inr (ensureCursorVisible (if cursor m > 0 then m\<lparr>cursor := cursor m - 1\<rparr> else m),
                  NoCmd)
           else if key_Matches k (Down defaultKeyMap) then
             Inr (ensureCursorVisible
                    (if cursor m < int (length (vis m)) - 1 then m\<lparr>cursor := cursor m + 1\<rparr>
                     else m),
                  NoCmd)
           else if key_Matches k (Right defaultKeyMap) then
             (case current_node m of
                Inl e \<Rightarrow> Inl e
              | Inr (p, n) \<Rightarrow>
                  (if isDir n \<and> \<not> expanded n \<and> length (children n) > 0
                   then Inr (set_expansion True p m, NoCmd)
                   else Inr (m, NoCmd)))
           else if key_Matches k (Left defaultKeyMap) then
             (case current_node m of
                Inl e \<Rightarrow> Inl e
              | Inr (p, n) \<Rightarrow>
                  (if isDir n \<and> expanded n \<and> length (children n) > 0
                   then Inr (set_expansion False p m, NoCmd)
                   else Inr (m, NoCmd)))
           else if key_Matches k (Toggle defaultKeyMap) then
             (case current_node m of
                Inl e \<Rightarrow> Inl e
              | Inr (p, n) \<Rightarrow>
                  (if \<not> isDir n
                   then (let sel = \<not> selected n;
                             m = m\<lparr>root_m := update_at (set_selected sel) p (root_m m)\<rparr>
                         in Inr (if sel then m\<lparr>selectedCount := selectedCount m + 1\<rparr>
                                 else m\<lparr>selectedCount := selectedCount m - 1\<rparr>, NoCmd))
                   else Inr (m, NoCmd)))
           else if key_Matches k (Confirm defaultKeyMap) then Inr (m\<lparr>confirmed := True\<rparr>, Quit)
           else Inr (m, NoCmd))
      | OtherMsg \<Rightarrow> Inr (m, NoCmd))"

text \<open>The event loop: one \<open>Update\<close> per message, in order.\<close>

fun run_msgs :: "model \<Rightarrow> msg list \<Rightarrow> panic + model" where
  "run_msgs m [] = Inr m"
| "run_msgs m (x # xs) =
     (case Update m x of Inl e \<Rightarrow> Inl e | Inr (m', c) \<Rightarrow> run_msgs m' xs)"

text \<open>\<open>selectedFiles\<close>: the walk over the whole tree, then \<open>sort.Strings\<close>.\<close>

fun walk_selected :: "node \<Rightarrow> string list"
  and walk_selected_children :: "node list \<Rightarrow> string list" where
  "walk_selected (Node nm rel d cs dp ex sel) =
     (if \<not> d \<and> sel then [filepath_ToSlash rel] else []) @
     (if d then walk_selected_children cs else [])"
| "walk_selected_children [] = []"
| "walk_selected_children (c # cs) = walk_selected c @ walk_selected_children cs"

definition selectedFiles :: "model \<Rightarrow> string list" where
  "selectedFiles m = sort (walk_selected (root_m m))"


section \<open>DocumentAssembler: \<open>languageFor\<close> and \<open>buildMarkdown\<close>\<close>

text \<open>
  \<open>filepath.Base\<close> (the last element, after the trailing separators are removed),
  \<open>filepath.Ext\<close> (the suffix of the last element from its last dot on) and
  \<open>strings.ToLower\<close>, here on the ASCII letters: the other bytes stay as they are.
\<close>

definition filepath_Base :: "string \<Rightarrow> string" where
  "filepath_Base path =
     (if path = [] then ''.''
      else let p = rev (dropWhile (\<lambda>c. c = CHR ''/'') (rev path));
               p = rev (takeWhile (\<lambda>c. c \<noteq> CHR ''/'') (rev p))
           in if p = [] then ''/'' else p)"

fun ext_scan :: "string \<Rightarrow> string \<Rightarrow> string" where
  "ext_scan [] acc = []"
| "ext_scan (c # cs) acc =
     (if c = CHR ''/'' then []
      else if c = CHR ''.'' then c # acc
      else ext_scan cs (c # acc))"

definition filepath_Ext :: "string \<Rightarrow> string" where
  "filepath_Ext path = ext_scan (rev path) []"

definition lower_byte :: "char \<Rightarrow> char" where
  "lower_byte c =
     (if CHR ''A'' \<le> c \<and> c \<le> CHR ''Z'' then char_of (of_char c + (32 :: nat)) else c)"

definition strings_ToLower :: "string \<Rightarrow> string" where
  "strings_ToLower s = map lower_byte s"

definition languageFor :: "string \<Rightarrow> string" where
  "languageFor relOS =
     (let b = filepath_Base relOS
      in if b = ''Dockerfile'' then ''dockerfile''
         else if b = ''Makefile'' then ''make''
         else let ext = strings_ToLower (filepath_Ext relOS)
              in if ext = [] then []
                 else let ext = strings_TrimPrefix ext ''.''
                      in if ext = ''go'' then ''go''
                         else if ext \<in> set [''md'', ''markdown''] then ''markdown''
                         else if ext = ''txt'' then ''text''
                         else if ext = ''js'' then ''javascript''
                         else if ext = ''ts'' then ''typescript''
                         else if ext = ''json'' then ''json''
                         else if ext \<in> set [''yaml'', ''yml''] then ''yaml''
                         else if ext = ''toml'' then ''toml''
                         else if ext \<in> set [''sh'', ''bash''] then ''bash''
                         else if ext = ''zsh'' then ''zsh''
                         else if ext = ''py'' then ''python''
                         else if ext = ''rb'' then ''ruby''
                         else if ext = ''php'' then ''php''
                         else if ext = ''java'' then ''java''
                         else if ext = ''kt'' then ''kotlin''
                         else if ext = ''rs'' then ''rust''
                         else if ext = ''c'' then ''c''
                         else if ext = ''h'' then ''c''
                         else if ext \<in> set [''cc'', ''cpp'', ''cxx''] then ''cpp''
                         else if ext \<in> set [''hpp'', ''hh''] then ''cpp''
                         else if ext = ''cs'' then ''csharp''
                         else if ext \<in> set [''html'', ''htm''] then ''html''
                         else if ext = ''css'' then ''css''
                         else if ext = ''scss'' then ''scss''
                         else if ext = ''sql'' then ''sql''
                         else if ext = ''xml'' then ''xml''
                         else if ext \<in> set [''ini'', ''conf''] then ''ini''
                         else ext)"

text \<open>
  What \<open>buildMarkdown\<close> takes from the operating system is a parameter, the record
  \<open>world\<close>:
  \<^item> \<open>isBinary\<close>: the classification of the file at an absolute path (the function of the
    source reads the first 8192 bytes of the file; it panics when the file cannot be read);
  \<^item> \<open>file_command\<close>: the combined output of the command \<open>file\<close> on a relative path, a
    panic when the command fails;
  \<^item> \<open>os_Open\<close>: the file at an absolute path as a reader, a panic when it cannot be opened;
  \<^item> \<open>output_ok\<close>: whether the output directory and file can be created, written, closed and
    inspected; \<open>buildMarkdown\<close> panics otherwise.
  The document is the sequence of bytes written to the output file, in order; the file is
  new, so its size is the length of the document.
\<close>

record world =
  isBinary :: "string \<Rightarrow> panic + bool"
  file_command :: "string \<Rightarrow> panic + string"
  os_Open :: "string \<Rightarrow> panic + reader"
  output_ok :: bool

definition newline :: string where
  "newline = [CHR 0x0A]"

definition bytes_TrimRight :: "string \<Rightarrow> char \<Rightarrow> string" where
  "bytes_TrimRight s c = rev (dropWhile (\<lambda>x. x = c) (rev s))"

definition io_Copy :: "reader \<Rightarrow> panic + string" where
  "io_Copy r = (if last_err r = EOF then Inr (content r) else Inl PanicIO)"

definition maxRunByteInFile :: "world \<Rightarrow> string \<Rightarrow> char \<Rightarrow> panic + int" where
  "maxRunByteInFile w path b =
     (case os_Open w path of Inl e \<Rightarrow> Inl e | Inr f \<Rightarrow> maxRunByteInReader f b)"

text \<open>
  The body of the loop of \<open>buildMarkdown\<close> for one selected file: \<open>write_binary\<close> is the
  branch for a binary file, \<open>write_text\<close> the rest of the body, and \<open>write_file\<close> the heading
  followed by one of the two. \<open>isBinary\<close> is called only when binary files are allowed.
\<close>

definition write_binary :: "world \<Rightarrow> string \<Rightarrow> panic + string" where
  "write_binary w relSlash =
     (case file_command w relSlash of
        Inl e \<Rightarrow> Inl e
      | Inr out0 \<Rightarrow>
          (let first = replicate 3 backtick @ newline;
               out = bytes_TrimRight out0 (CHR 0x0A);
               maxRun = snd (scan_buf out backtick (0, 0));
               fence = fenceForContent maxRun
           in Inr (first @ fence @ newline @ out @ newline @ fence @ newline @ newline)))"

definition write_text :: "world \<Rightarrow> string \<Rightarrow> string \<Rightarrow> panic + string" where
  "write_text w relOS absPath =
     (case maxRunByteInFile w absPath backtick of
        Inl e \<Rightarrow> Inl e
      | Inr maxRun \<Rightarrow>
          (let fence = fenceForContent maxRun;
               lang = languageFor relOS;
               opening = (if lang \<noteq> [] then fence @ lang @ newline else fence @ newline)
           in case os_Open w absPath of
                Inl e \<Rightarrow> Inl e
              | Inr inp \<Rightarrow>
                  (case io_Copy inp of
                     Inl e \<Rightarrow> Inl e
                   | Inr body \<Rightarrow> Inr (opening @ body @ newline @ fence @ newline @ newline))))"

definition write_file :: "world \<Rightarrow> string \<Rightarrow> bool \<Rightarrow> string \<Rightarrow> panic + string" where
  "write_file w b allowB relSlash =
     (let relOS = filepath_FromSlash relSlash;
          absPath = filepath_Join b relOS;
          heading = ''## '' @ relSlash @ newline @ newline
      in case (if allowB then isBinary w absPath else Inr False) of
           Inl e \<Rightarrow> Inl e
         | Inr bin \<Rightarrow>
             (case (if bin then write_binary w relSlash else write_text w relOS absPath) of
                Inl e \<Rightarrow> Inl e
              | Inr block \<Rightarrow> Inr (heading @ block)))"

fun write_files :: "world \<Rightarrow> string \<Rightarrow> bool \<Rightarrow> string list \<Rightarrow> panic + string" where
  "write_files w b allowB [] = Inr []"
| "write_files w b allowB (relSlash # rest) =
     (case write_file w b allowB relSlash of
        Inl e \<Rightarrow> Inl e
      | Inr block \<Rightarrow>
          (case write_files w b allowB rest of
             Inl e \<Rightarrow> Inl e
           | Inr doc \<Rightarrow> Inr (block @ doc)))"

text \<open>
  \<open>buildMarkdown\<close> returns the document, its size and the token estimate (the path of the
  output file depends on the clock and is left out).
\<close>

definition buildMarkdown ::
  "world \<Rightarrow> string \<Rightarrow> string list \<Rightarrow> bool \<Rightarrow> panic + (string \<times> 64 word \<times> 64 word)" where
  "buildMarkdown w b selectedRelSlash allowB =
     (if \<not> output_ok w then Inl PanicIO
      else case write_files w b allowB selectedRelSlash of
             Inl e \<Rightarrow> Inl e
           | Inr doc \<Rightarrow>
               (let sz = word_of_nat (length doc)
                in Inr (doc, sz, token_estimate sz)))"

section \<open>Predicates of the statements\<close>

text \<open>
  \<open>trail b xs\<close> is the length of the run of \<open>b\<close> that ends
  \<open>xs\<close>, and \<open>has_run b k xs\<close> says that \<open>k\<close> consecutive \<open>b\<close> occur somewhere in \<open>xs\<close>.
\<close>

definition trail :: "char \<Rightarrow> string \<Rightarrow> nat" where
  "trail b xs = length (takeWhile (\<lambda>c. c = b) (rev xs))"

definition has_run :: "char \<Rightarrow> nat \<Rightarrow> string \<Rightarrow> bool" where
  "has_run b k xs \<longleftrightarrow> (\<exists>us vs. xs = us @ replicate k b @ vs)"

text \<open>
  \<open>dirs_first_alphabetical\<close> is the order of the children of a directory as the specification
  words it: the list is its directories followed by its files, and the names of each group
  are in ascending order. \<open>node_le\<close> is the order of the comparison of the source read as
  ``not greater''. \<open>wf_tree\<close> says that the files are leaves and that every child is one
  level below its parent; \<open>ordered_tree\<close> that the children of every directory are in order.
\<close>

definition dirs_first_alphabetical :: "node list \<Rightarrow> bool" where
  "dirs_first_alphabetical cs \<longleftrightarrow>
     cs = filter isDir cs @ filter (\<lambda>c. \<not> isDir c) cs \<and>
     sorted (map name (filter isDir cs)) \<and>
     sorted (map name (filter (\<lambda>c. \<not> isDir c) cs))"

fun wf_tree :: "node \<Rightarrow> bool" where
  "wf_tree (Node nm rel d cs dp ex sel) =
     ((\<not> d \<longrightarrow> cs = []) \<and> (\<forall>c \<in> set cs. depth c = dp + 1 \<and> wf_tree c))"

fun ordered_tree :: "node \<Rightarrow> bool" where
  "ordered_tree (Node nm rel d cs dp ex sel) =
     ((d \<longrightarrow> dirs_first_alphabetical cs) \<and> (\<forall>c \<in> set cs. ordered_tree c))"

definition node_le :: "node \<Rightarrow> node \<Rightarrow> bool" where
  "node_le a b \<longleftrightarrow> \<not> node_less b a"

text \<open>
  \<open>lookup n parts\<close> follows the names \<open>parts\<close> down from \<open>n\<close> with the lookup \<open>child\<close> of the
  source: it is the node that a path names when every segment names an existing child.
  \<open>blocked cur parts\<close> says that the walk along \<open>parts\<close> reaches a file while segments are
  left, so that a directory is needed where a file is. \<open>parts_of\<close> is the list of segments
  that \<open>buildTree\<close> inserts for one path of its input, \<open>None\<close> for a path that it skips
  before the insertion.
\<close>

fun lookup :: "node \<Rightarrow> string list \<Rightarrow> node option" where
  "lookup n [] = Some n"
| "lookup n (part # rest) =
     (case child n part of None \<Rightarrow> None | Some (i, c) \<Rightarrow> lookup c rest)"

definition blocked :: "node \<Rightarrow> string list \<Rightarrow> bool" where
  "blocked cur parts \<longleftrightarrow>
     (\<exists>ps qs f. parts = ps @ qs \<and> qs \<noteq> [] \<and> lookup cur ps = Some f \<and> \<not> isDir f)"

definition parts_of :: "string \<Rightarrow> string \<Rightarrow> string list option" where
  "parts_of startRelSlash full =
     (if startRelSlash \<noteq> ''.'' \<and> \<not> strings_HasPrefix full (startRelSlash @ ''/'') then None
      else let within_p = (if startRelSlash \<noteq> ''.''
                           then strings_TrimPrefix full (startRelSlash @ ''/'') else full)
           in if within_p = [] then None else Some (strings_Split within_p))"

text \<open>
  \<open>visible n p\<close> says that the position \<open>p\<close> is shown below \<open>n\<close>: every node on the way to it
  is an expanded directory. \<open>model_inv\<close> is the invariant of the session: the visible
  sequence is the one of the tree, the cursor is an index of it, and the scroll offset and
  the cursor are related as the specification says.
\<close>

fun visible :: "node \<Rightarrow> nat list \<Rightarrow> bool" where
  "visible n [] = True"
| "visible n (i # p) =
     (isDir n \<and> expanded n \<and> i < length (children n) \<and> visible (children n ! i) p)"

definition model_inv :: "model \<Rightarrow> bool" where
  "model_inv m \<longleftrightarrow>
     vis m = flattenVisible (root_m m) \<and>
     0 \<le> cursor m \<and> cursor m < int (length (vis m)) \<and>
     offset m \<le> cursor m \<and> cursor m < offset m + viewportHeight m \<and>
     0 \<le> offset m \<and> offset m \<le> max 0 (int (length (vis m)) - viewportHeight m)"

text \<open>
  \<open>selected_paths t\<close> is the set of the paths of the selected files of the tree \<open>t\<close>: the
  files are found by position, not by the walk of \<open>selectedFiles\<close>.
\<close>

definition selected_paths :: "node \<Rightarrow> string set" where
  "selected_paths t =
     {filepath_ToSlash (relBase n) | p n. node_at t p = Some n \<and> \<not> isDir n \<and> selected n}"

text \<open>
  \<open>names_along t p\<close> is the list of the names met on the way from \<open>t\<close> to the position
  \<open>p\<close>, the root left out: the segments of the path of the node at \<open>p\<close> below \<open>t\<close>.
  \<open>covered F t\<close> says that every node of \<open>t\<close> other than the root lies on the way of one of
  the segment lists of \<open>F\<close>.
\<close>

fun names_along :: "node \<Rightarrow> nat list \<Rightarrow> string list" where
  "names_along t [] = []"
| "names_along t (i # p) =
     (if i < length (children t)
      then name (children t ! i) # names_along (children t ! i) p
      else [])"

definition covered :: "string list set \<Rightarrow> node \<Rightarrow> bool" where
  "covered F t \<longleftrightarrow>
     (\<forall>p n. node_at t p = Some n \<and> p \<noteq> [] \<longrightarrow>
        (\<exists>parts \<in> F. \<exists>qs. parts = names_along t p @ qs))"

text \<open>
  \<open>selected_file_positions t\<close> is the set of the positions of the selected files of \<open>t\<close>,
  \<open>path_at t p\<close> the path that \<open>selectedFiles\<close> reports for the node at \<open>p\<close>, and
  \<open>sel_positions t\<close> the positions of the selected files in the order of the walk of
  \<open>selectedFiles\<close>.
\<close>

fun sel_positions :: "node \<Rightarrow> nat list list"
  and sel_positions_children :: "nat \<Rightarrow> node list \<Rightarrow> nat list list" where
  "sel_positions (Node nm rel d cs dp ex sel) =
     (if \<not> d \<and> sel then [[]] else []) @ (if d then sel_positions_children 0 cs else [])"
| "sel_positions_children k [] = []"
| "sel_positions_children k (c # cs) =
     map ((#) k) (sel_positions c) @ sel_positions_children (Suc k) cs"

definition path_at :: "node \<Rightarrow> nat list \<Rightarrow> string" where
  "path_at t p = filepath_ToSlash (relBase (the (node_at t p)))"

definition selected_file_positions :: "node \<Rightarrow> nat list set" where
  "selected_file_positions t = {p. \<exists>n. node_at t p = Some n \<and> \<not> isDir n \<and> selected n}"

section \<open>Properties of the fence negotiation\<close>

lemma scan_buf_append:
  "scan_buf (xs @ ys) b st = scan_buf ys b (scan_buf xs b st)"
proof (induction xs arbitrary: st)
  case Nil
  show ?case by (cases st) simp
next
  case (Cons x xs)
  show ?case by (cases st) (simp add: Cons.IH Let_def)
qed

lemma read_loop_content:
  "read_loop chs lastc err b st =
     (if err = EOF then Inr (snd (scan_buf (concat chs @ lastc) b st)) else Inl PanicIO)"
proof (induction chs arbitrary: st)
  case Nil
  show ?case by (simp add: case_prod_beta)
next
  case (Cons ch chs)
  show ?case by (simp add: Cons.IH scan_buf_append)
qed

lemma trail_snoc: "trail b (xs @ [c]) = (if c = b then Suc (trail b xs) else 0)"
  by (simp add: trail_def)

lemma trail_suffix: "\<exists>us. xs = us @ replicate (trail b xs) b"
proof -
  have "rev xs = takeWhile (\<lambda>c. c = b) (rev xs) @ dropWhile (\<lambda>c. c = b) (rev xs)"
    by simp
  moreover have "takeWhile (\<lambda>c. c = b) (rev xs) = replicate (trail b xs) b"
    unfolding trail_def
    by (rule replicate_eqI) (auto dest: set_takeWhileD)
  ultimately have "rev xs = replicate (trail b xs) b @ dropWhile (\<lambda>c. c = b) (rev xs)"
    by simp
  then have "rev (rev xs) = rev (replicate (trail b xs) b @ dropWhile (\<lambda>c. c = b) (rev xs))"
    by simp
  then have "xs = rev (dropWhile (\<lambda>c. c = b) (rev xs)) @ replicate (trail b xs) b"
    by simp
  then show ?thesis by blast
qed

lemma has_run_mono: "has_run b k xs \<Longrightarrow> j \<le> k \<Longrightarrow> has_run b j xs"
proof -
  assume h: "has_run b k xs" and le: "j \<le> k"
  from h obtain us vs where xs: "xs = us @ replicate k b @ vs"
    by (auto simp: has_run_def)
  from le have "replicate k b = replicate j b @ replicate (k - j) b"
    by (simp add: replicate_add [symmetric])
  with xs have "xs = us @ replicate j b @ (replicate (k - j) b @ vs)" by simp
  then show ?thesis unfolding has_run_def by blast
qed

lemma has_run_trail: "k \<le> trail b xs \<Longrightarrow> has_run b k xs"
proof -
  assume le: "k \<le> trail b xs"
  obtain us where "xs = us @ replicate (trail b xs) b" using trail_suffix by blast
  then have "xs = us @ replicate (trail b xs) b @ []" by simp
  then have "has_run b (trail b xs) xs" unfolding has_run_def by blast
  with le show ?thesis by (rule has_run_mono [rotated -1])
qed

lemma replicate_suffix_trail:
  "xs = us @ replicate k b \<Longrightarrow> k \<le> trail b xs"
proof -
  assume xs: "xs = us @ replicate k b"
  have "takeWhile (\<lambda>c. c = b) (replicate k b @ rev us) =
          replicate k b @ takeWhile (\<lambda>c. c = b) (rev us)"
    by (rule takeWhile_append2) auto
  with xs show ?thesis by (simp add: trail_def)
qed

lemma has_run_snoc:
  "has_run b k (xs @ [c]) \<longleftrightarrow> has_run b k xs \<or> k \<le> trail b (xs @ [c])"
proof
  assume "has_run b k (xs @ [c])"
  then obtain us vs where eq: "xs @ [c] = us @ replicate k b @ vs"
    by (auto simp: has_run_def)
  show "has_run b k xs \<or> k \<le> trail b (xs @ [c])"
  proof (cases vs rule: rev_cases)
    case Nil
    with eq have "xs @ [c] = us @ replicate k b" by simp
    then have "k \<le> trail b (xs @ [c])" by (rule replicate_suffix_trail)
    then show ?thesis by simp
  next
    case (snoc vs' d)
    with eq have "xs @ [c] = (us @ replicate k b @ vs') @ [d]" by simp
    then have "xs = us @ replicate k b @ vs'" by simp
    then show ?thesis unfolding has_run_def by blast
  qed
next
  assume "has_run b k xs \<or> k \<le> trail b (xs @ [c])"
  then show "has_run b k (xs @ [c])"
  proof
    assume "has_run b k xs"
    then obtain us vs where "xs = us @ replicate k b @ vs"
      by (auto simp: has_run_def)
    then have "xs @ [c] = us @ replicate k b @ (vs @ [c])" by simp
    then show ?thesis unfolding has_run_def by blast
  next
    assume "k \<le> trail b (xs @ [c])"
    then show ?thesis by (rule has_run_trail)
  qed
qed

text \<open>
  The invariant of the scan: after the prefix \<open>xs\<close>, \<open>run\<close> is the length of the run that
  ends \<open>xs\<close> and \<open>maxRun\<close> is the length of a longest run of \<open>xs\<close>.
\<close>

lemma scan_buf_invariant:
  "\<exists>m. scan_buf xs b (0, 0) = (int (trail b xs), int m) \<and> trail b xs \<le> m \<and>
       has_run b m xs \<and> (\<forall>k. has_run b k xs \<longrightarrow> k \<le> m)"
proof (induction xs rule: rev_induct)
  case Nil
  show ?case by (simp add: trail_def has_run_def)
next
  case (snoc c xs)
  then obtain m where sc: "scan_buf xs b (0, 0) = (int (trail b xs), int m)"
    and tm: "trail b xs \<le> m" and hm: "has_run b m xs"
    and mx: "\<forall>k. has_run b k xs \<longrightarrow> k \<le> m"
    by blast
  show ?case
  proof (cases "c = b")
    case False
    then have "scan_buf (xs @ [c]) b (0, 0) = (int (trail b (xs @ [c])), int m)"
      by (simp add: scan_buf_append sc trail_snoc)
    moreover have "has_run b m (xs @ [c])" using hm by (simp add: has_run_snoc)
    moreover have "\<forall>k. has_run b k (xs @ [c]) \<longrightarrow> k \<le> m"
      using mx False by (auto simp: has_run_snoc trail_snoc)
    ultimately show ?thesis using False by (auto simp: trail_snoc)
  next
    case True
    let ?m = "max m (Suc (trail b xs))"
    have "scan_buf (xs @ [c]) b (0, 0) = (int (trail b (xs @ [c])), int ?m)"
      using True by (auto simp: scan_buf_append sc trail_snoc Let_def max_def)
    moreover have "trail b (xs @ [c]) \<le> ?m" using True by (simp add: trail_snoc)
    moreover have "has_run b ?m (xs @ [c])"
      using hm True by (auto simp: has_run_snoc trail_snoc max_def)
    moreover have "\<forall>k. has_run b k (xs @ [c]) \<longrightarrow> k \<le> ?m"
      using mx True by (auto simp: has_run_snoc trail_snoc max_def dest: spec)
    ultimately show ?thesis by blast
  qed
qed

lemma maxRunByteInReader_longest:
  assumes "last_err r = EOF"
  shows "\<exists>m. maxRunByteInReader r b = Inr (int m) \<and> has_run b m (content r) \<and>
             (\<forall>k. has_run b k (content r) \<longrightarrow> k \<le> m)"
proof -
  obtain m where "scan_buf (content r) b (0, 0) = (int (trail b (content r)), int m)"
    and "has_run b m (content r)" and "\<forall>k. has_run b k (content r) \<longrightarrow> k \<le> m"
    using scan_buf_invariant by blast
  then show ?thesis
    using assms by (auto simp: maxRunByteInReader_def read_loop_content content_def)
qed

lemma length_fenceForContent: "0 \<le> m \<Longrightarrow> int (length (fenceForContent m)) = max (m + 1) 3"
  by (auto simp: fenceForContent_def Let_def)

text \<open>
  Claim C1. For every content that is read to its end, the fence is longer than every run of
  backticks of the content: with \<open>k\<close> the result of \<open>maxRunByteInReader\<close>, the fence
  \<open>fenceForContent k\<close> has length \<open>max (k + 1) 3\<close>, and the content holds no run of that many
  backticks or more. The reads may cut the content anywhere.
\<close>

theorem fence_exceeds_every_run:
  assumes "last_err r = EOF"
  shows "\<exists>k. maxRunByteInReader r backtick = Inr k \<and>
             int (length (fenceForContent k)) = max (k + 1) 3 \<and>
             (\<forall>n. length (fenceForContent k) \<le> n \<longrightarrow> \<not> has_run backtick n (content r))"
proof -
  obtain m where mr: "maxRunByteInReader r backtick = Inr (int m)"
    and mx: "\<forall>k. has_run backtick k (content r) \<longrightarrow> k \<le> m"
    using maxRunByteInReader_longest [OF assms] by blast
  have len: "int (length (fenceForContent (int m))) = max (int m + 1) 3"
    by (rule length_fenceForContent) simp
  then have "m < length (fenceForContent (int m))" by linarith
  with mx have "\<forall>n. length (fenceForContent (int m)) \<le> n \<longrightarrow> \<not> has_run backtick n (content r)"
    by fastforce
  with mr len show ?thesis by blast
qed

theorem fence_exceeds_every_run_witness:
  "maxRunByteInReader (Reader [[CHR ''a'', backtick], [backtick, CHR ''b'']] [] EOF) backtick = Inr 2 \<and>
   length (fenceForContent 2) = 3 \<and>
   \<not> has_run backtick 3 (content (Reader [[CHR ''a'', backtick], [backtick, CHR ''b'']] [] EOF))"
proof -
  let ?r = "Reader [[CHR ''a'', backtick], [backtick, CHR ''b'']] [] EOF"
  have e: "last_err ?r = EOF" by simp
  have v: "maxRunByteInReader ?r backtick = Inr 2"
    by (simp add: maxRunByteInReader_def backtick_def)
  have l: "length (fenceForContent 2) = 3" by (simp add: fenceForContent_def)
  from fence_exceeds_every_run [OF e] v l show ?thesis by auto
qed

text \<open>
  Claim C2. For every content that is read to its end and whose longest run of backticks has
  length exactly \<open>k\<close> (a run of \<open>k\<close> occurs, a run of \<open>k + 1\<close> does not),
  \<open>maxRunByteInReader\<close> returns \<open>k\<close> and the fence is \<open>max (k + 1) 3\<close> backticks; for a
  content without a backtick the fence is exactly three backticks.
\<close>

theorem fence_length_of_longest_run:
  assumes "last_err r = EOF"
  shows "(has_run backtick k (content r) \<and> \<not> has_run backtick (Suc k) (content r) \<longrightarrow>
           maxRunByteInReader r backtick = Inr (int k) \<and>
           fenceForContent (int k) = replicate (max (k + 1) 3) backtick) \<and>
         (backtick \<notin> set (content r) \<longrightarrow>
           (\<exists>m. maxRunByteInReader r backtick = Inr m \<and> fenceForContent m = replicate 3 backtick))"
proof -
  obtain m where mr: "maxRunByteInReader r backtick = Inr (int m)"
    and hm: "has_run backtick m (content r)"
    and mx: "\<forall>k. has_run backtick k (content r) \<longrightarrow> k \<le> m"
    using maxRunByteInReader_longest [OF assms] by blast
  have fence: "fenceForContent (int j) = replicate (max (j + 1) 3) backtick" for j
    by (auto simp: fenceForContent_def Let_def max_def nat_add_distrib)
  have exact: "m = k" if k: "has_run backtick k (content r)"
    and nk: "\<not> has_run backtick (Suc k) (content r)"
  proof -
    from k mx have "k \<le> m" by blast
    moreover have "\<not> Suc k \<le> m" using has_run_mono [OF hm] nk by blast
    ultimately show ?thesis by simp
  qed
  have none: "m = 0" if nb: "backtick \<notin> set (content r)"
  proof (rule ccontr)
    assume "m \<noteq> 0"
    then have "has_run backtick (Suc 0) (content r)" using has_run_mono [OF hm] by simp
    then obtain us vs where "content r = us @ replicate (Suc 0) backtick @ vs"
      unfolding has_run_def by blast
    then have "backtick \<in> set (content r)" by simp
    with nb show False by contradiction
  qed
  show ?thesis
  proof (intro conjI impI)
    assume "has_run backtick k (content r) \<and> \<not> has_run backtick (Suc k) (content r)"
    then have "m = k" using exact by blast
    then show "maxRunByteInReader r backtick = Inr (int k)" using mr by simp
  next
    show "fenceForContent (int k) = replicate (max (k + 1) 3) backtick" by (rule fence)
  next
    assume "backtick \<notin> set (content r)"
    then have "m = 0" by (rule none)
    with mr fence [of 0] show "\<exists>m. maxRunByteInReader r backtick = Inr m \<and>
        fenceForContent m = replicate 3 backtick"
      by simp
  qed
qed

theorem fence_length_of_longest_run_witness:
  "has_run backtick 2 (content (Reader [[CHR ''a'', backtick], [backtick, CHR ''b'']] [] EOF)) \<and>
   \<not> has_run backtick 3 (content (Reader [[CHR ''a'', backtick], [backtick, CHR ''b'']] [] EOF)) \<and>
   maxRunByteInReader (Reader [[CHR ''a'', backtick], [backtick, CHR ''b'']] [] EOF) backtick = Inr 2 \<and>
   fenceForContent 2 = replicate 3 backtick \<and>
   backtick \<notin> set (content (Reader [''ab''] ''c'' EOF)) \<and>
   (\<exists>m. maxRunByteInReader (Reader [''ab''] ''c'' EOF) backtick = Inr m \<and>
        fenceForContent m = replicate 3 backtick)"
proof -
  let ?r = "Reader [[CHR ''a'', backtick], [backtick, CHR ''b'']] [] EOF"
  let ?q = "Reader [''ab''] ''c'' EOF"
  have e: "last_err ?r = EOF" and e': "last_err ?q = EOF" by simp_all
  have "content ?r = [CHR ''a''] @ replicate 2 backtick @ [CHR ''b'']"
    by (simp add: content_def numeral_2_eq_2)
  then have h2: "has_run backtick 2 (content ?r)" unfolding has_run_def by blast
  have v: "maxRunByteInReader ?r backtick = Inr 2"
    by (simp add: maxRunByteInReader_def backtick_def)
  obtain m where "maxRunByteInReader ?r backtick = Inr (int m)"
    and mx: "\<forall>k. has_run backtick k (content ?r) \<longrightarrow> k \<le> m"
    using maxRunByteInReader_longest [OF e] by blast
  with v have "m = 2" by simp
  with mx have h3: "\<not> has_run backtick (Suc 2) (content ?r)" by fastforce
  have nb: "backtick \<notin> set (content ?q)" by (simp add: content_def backtick_def)
  from fence_length_of_longest_run [OF e, of 2] h2 h3
  have a: "maxRunByteInReader ?r backtick = Inr 2 \<and> fenceForContent 2 = replicate 3 backtick"
    by (simp add: numeral_3_eq_3)
  from fence_length_of_longest_run [OF e', of 0] nb
  have b: "\<exists>m. maxRunByteInReader ?q backtick = Inr m \<and> fenceForContent m = replicate 3 backtick"
    by blast
  from h2 h3 a b nb show ?thesis by (simp add: numeral_3_eq_3)
qed

section \<open>The token estimate\<close>

lemma sint_word_of_int_small:
  "- (2 ^ 63) \<le> k \<Longrightarrow> k < 2 ^ 63 \<Longrightarrow> sint (word_of_int k :: 64 word) = k"
  by (simp add: sint_sbintrunc' signed_take_bit_int_eq_self)

lemma sdiv_4_nonneg: "0 \<le> (a::int) \<Longrightarrow> a sdiv 4 = a div 4"
  by (simp add: signed_divide_int_def sgn_if)

lemma token_estimate_value:
  assumes lo: "0 \<le> B" and hi: "B \<le> 2 ^ 63 - 4"
  shows "sint (token_estimate (word_of_int B)) = (B + 3) div 4"
proof -
  have "(word_of_int B :: 64 word) + 3 = word_of_int (B + 3)" by simp
  moreover have "sint (word_of_int (B + 3) :: 64 word) = B + 3"
    using lo hi by (intro sint_word_of_int_small) auto
  ultimately have s: "sint ((word_of_int B :: 64 word) + 3) = B + 3" by simp
  have q: "(B + 3) sdiv 4 = (B + 3) div 4" using lo by (intro sdiv_4_nonneg) simp
  have "sint (word_of_int ((B + 3) div 4) :: 64 word) = (B + 3) div 4"
    using lo hi by (intro sint_word_of_int_small) auto
  then show ?thesis by (simp add: token_estimate_def s q)
qed

lemma ceiling_quarter: "\<lceil>real_of_int B / 4\<rceil> = (B + 3) div 4"
proof -
  have "\<lceil>real_of_int B / 4\<rceil> = - (- B div 4)"
    using ceiling_divide_eq_div [of B 4] by simp
  also have "\<dots> = (B + 3) div 4" by presburger
  finally show ?thesis .
qed

text \<open>
  Above \<open>2 ^ 63 - 4\<close> the addition \<open>size + 3\<close> leaves the range of \<open>int64\<close>; at the
  largest \<open>int64\<close> the estimate is negative.
\<close>

lemma token_estimate_wraps:
  "sint (token_estimate (word_of_int (2 ^ 63 - 1))) = - 2305843009213693951"
  by (simp add: token_estimate_def signed_divide_int_def)

text \<open>
  Claim C9. For every document that \<open>buildMarkdown\<close> assembles, of \<open>B\<close> bytes, the reported
  size is \<open>B\<close> and the reported token estimate is \<open>(B + 3) div 4\<close>, which is the ceiling
  of \<open>B / 4\<close>; 12345 bytes give 3087 tokens. \<open>B\<close> ranges over the sizes at which the
  \<open>int64\<close> addition \<open>size + 3\<close> does not wrap, that is up to \<open>2 ^ 63 - 4\<close>: a size is a
  file offset, and no file system holds a file of eight exbibytes.
\<close>

theorem token_estimate_ceiling:
  assumes "buildMarkdown w b selectedRelSlash allowB = Inr (doc, sz, tokens)"
    and "int (length doc) \<le> 2 ^ 63 - 4"
  shows "sint sz = int (length doc) \<and>
         sint tokens = (int (length doc) + 3) div 4 \<and>
         sint tokens = \<lceil>real (length doc) / 4\<rceil> \<and>
         token_estimate 12345 = 3087"
proof -
  let ?B = "int (length doc)"
  from assms(1) have sz: "sz = word_of_int ?B" and tok: "tokens = token_estimate sz"
    by (auto simp: buildMarkdown_def Let_def split: if_splits sum.splits)
  have a: "sint sz = ?B" unfolding sz using assms(2) by (intro sint_word_of_int_small) auto
  have b: "sint tokens = (?B + 3) div 4"
    unfolding tok sz using assms(2) by (intro token_estimate_value) auto
  have c: "\<lceil>real (length doc) / 4\<rceil> = (?B + 3) div 4"
    using ceiling_quarter [of ?B] by simp
  have d: "token_estimate 12345 = 3087"
    by (simp add: token_estimate_def signed_divide_int_def)
  from a b c d show ?thesis by simp
qed

theorem token_estimate_ceiling_witness:
  "buildMarkdown
     \<lparr> isBinary = (\<lambda>p. Inr False),
       file_command = (\<lambda>p. Inl PanicIO),
       os_Open = (\<lambda>p. Inr (Reader [''package'', '' m'' @ newline] [] EOF)),
       output_ok = True \<rparr>
     ''/r'' [''a.go''] False =
   Inr (''## a.go'' @ newline @ newline @
        replicate 3 backtick @ ''go'' @ newline @
        ''package m'' @ newline @ newline @
        replicate 3 backtick @ newline @ newline,
        31, 8) \<and>
   sint (8 :: 64 word) = \<lceil>real 31 / 4\<rceil>"
proof -
  let ?w = "\<lparr> isBinary = (\<lambda>p. Inr False), file_command = (\<lambda>p. Inl PanicIO),
       os_Open = (\<lambda>p. Inr (Reader [''package'', '' m'' @ newline] [] EOF)),
       output_ok = True \<rparr>"
  let ?doc = "''## a.go'' @ newline @ newline @
        replicate 3 backtick @ ''go'' @ newline @
        ''package m'' @ newline @ newline @
        replicate 3 backtick @ newline @ newline"
  have l: "languageFor ''a.go'' = ''go''" by code_simp
  have r: "buildMarkdown ?w ''/r'' [''a.go''] False = Inr (?doc, 31, 8)"
    by (simp add: buildMarkdown_def write_file_def write_text_def maxRunByteInFile_def
        maxRunByteInReader_def io_Copy_def content_def filepath_FromSlash_def l
        newline_def backtick_def fenceForContent_def Let_def
        token_estimate_def signed_divide_int_def)
  have len: "int (length ?doc) \<le> 2 ^ 63 - 4" by (simp add: newline_def)
  have "length ?doc = 31" by (simp add: newline_def)
  with token_estimate_ceiling [OF r len] have "sint (8 :: 64 word) = \<lceil>real 31 / 4\<rceil>"
    by simp
  with r show ?thesis by simp
qed

section \<open>Properties of TreeBuilder\<close>

lemma build_loop_append:
  "build_loop s rt (xs @ ys) =
     (case build_loop s rt xs of Inl e \<Rightarrow> Inl e | Inr rt' \<Rightarrow> build_loop s rt' ys)"
  by (induction xs arbitrary: rt) (auto simp: Let_def split: sum.splits)

lemma build_loop_skip_empty:
  assumes "full = (if s = ''.'' then [] else s @ ''/'')"
  shows "build_loop s rt (full # files) = build_loop s rt files"
  using assms by (auto simp: strings_HasPrefix_def strings_TrimPrefix_def Let_def)

text \<open>
  Claim C6 as it is stated fails at the path \<open>a/\<close>, whose last segment is empty: with this
  path alone the tree is not the tree of the empty list, whose root has no child.
\<close>

theorem trailing_separator_counterexample:
  "buildTree ''.'' [''a/''] =
     Inr (Node ''.'' ''.'' True
            [Node ''a'' ''a'' True [Node [] ''a'' False [] 2 False False] 1 True False]
            0 True False) \<and>
   buildTree ''.'' [] = Inr (Node ''.'' ''.'' True [] 0 True False) \<and>
   buildTree ''.'' [''a/''] \<noteq> buildTree ''.'' []"
  by code_simp

text \<open>
  Claim C6, amended. A path with nothing left after the start prefix (the start directory
  followed by the separator, or the empty path when the start is \<open>.\<close>) is ignored: wherever
  it stands in the list, the result of \<open>buildTree\<close> is the one without it.
\<close>

theorem empty_remainder_ignored:
  assumes "full = (if startRelSlash = ''.'' then [] else startRelSlash @ ''/'')"
  shows "buildTree startRelSlash (before @ full # after) = buildTree startRelSlash (before @ after)"
proof -
  have "build_loop startRelSlash rt (before @ full # after) =
        build_loop startRelSlash rt (before @ after)" for rt
    by (simp only: build_loop_append build_loop_skip_empty [OF assms])
  then show ?thesis by (simp add: buildTree_def)
qed

theorem empty_remainder_ignored_witness:
  "buildTree ''sub'' ([''sub/x''] @ ''sub/'' # [''sub/d/y'']) =
     buildTree ''sub'' ([''sub/x''] @ [''sub/d/y'']) \<and>
   buildTree ''sub'' ([''sub/x''] @ [''sub/d/y'']) =
     Inr (Node ''sub'' ''sub'' True
            [Node ''d'' ''sub/d'' True [Node ''y'' ''sub/d/y'' False [] 2 False False] 1 True False,
             Node ''x'' ''sub/x'' False [] 1 False False]
            0 True False)"
proof -
  have "''sub/'' = (if ''sub'' = ''.'' then [] else ''sub'' @ ''/'')" by simp
  from empty_remainder_ignored [OF this, of "[''sub/x'']" "[''sub/d/y'']"]
  have "buildTree ''sub'' ([''sub/x''] @ ''sub/'' # [''sub/d/y'']) =
        buildTree ''sub'' ([''sub/x''] @ [''sub/d/y''])" .
  moreover have "buildTree ''sub'' ([''sub/x''] @ [''sub/d/y'']) =
     Inr (Node ''sub'' ''sub'' True
            [Node ''d'' ''sub/d'' True [Node ''y'' ''sub/d/y'' False [] 2 False False] 1 True False,
             Node ''x'' ''sub/x'' False [] 1 False False]
            0 True False)"
    by code_simp
  ultimately show ?thesis by simp
qed

section \<open>Properties of DocumentAssembler\<close>

text \<open>
  Claim C4 does not hold of the code. In binary-allowed mode, for a file classified binary,
  \<open>buildMarkdown\<close> writes a line of three backticks between the blank line after the heading
  and the opening fence. Here the file \<open>x.bin\<close> is binary and \<open>file\<close> prints
  \<open>x.bin: data\<close>: the document has, after the heading and the blank line, the three
  backticks, then the fence, the description, the fence and the blank line; it is 35 bytes long.
\<close>

theorem binary_block_has_extra_fence_line:
  "buildMarkdown
     \<lparr> isBinary = (\<lambda>p. Inr True),
       file_command = (\<lambda>p. Inr (''x.bin: data'' @ newline)),
       os_Open = (\<lambda>p. Inl PanicIO),
       output_ok = True \<rparr>
     ''/r'' [''x.bin''] True =
   Inr (''## x.bin'' @ newline @ newline @
        replicate 3 backtick @ newline @
        replicate 3 backtick @ newline @
        ''x.bin: data'' @ newline @
        replicate 3 backtick @ newline @
        newline,
        35, 9)"
  by (simp add: buildMarkdown_def write_file_def write_binary_def filepath_FromSlash_def
      bytes_TrimRight_def newline_def backtick_def fenceForContent_def Let_def
      token_estimate_def signed_divide_int_def)

section \<open>Order of the children and depth\<close>

lemma node_le_trans: "node_le a b \<Longrightarrow> node_le b c \<Longrightarrow> node_le a c"
  by (auto simp: node_le_def node_less_def split: if_splits)

lemma node_less_le: "node_less a b \<Longrightarrow> node_le a b"
  by (auto simp: node_le_def node_less_def split: if_splits)

lemma set_insert_by: "set (insert_by lt x ys) = insert x (set ys)"
  by (induction ys) auto

lemma sorted_insert_by:
  "sorted_wrt node_le ys \<Longrightarrow> sorted_wrt node_le (insert_by node_less x ys)"
proof (induction ys)
  case Nil
  show ?case by simp
next
  case (Cons y ys)
  show ?case
  proof (cases "node_less x y")
    case True
    then have "node_le x y" by (rule node_less_le)
    moreover have "\<forall>z \<in> set ys. node_le y z" using Cons.prems by simp
    ultimately have "\<forall>z \<in> set ys. node_le x z" by (blast intro: node_le_trans)
    with True Cons.prems \<open>node_le x y\<close> show ?thesis by simp
  next
    case False
    then have "node_le y x" by (simp add: node_le_def)
    with False Cons show ?thesis by (auto simp: set_insert_by)
  qed
qed

lemma set_sort_Slice: "set (sort_Slice lt xs) = set xs"
  by (induction xs) (auto simp: sort_Slice_def set_insert_by)

lemma length_insert_by: "length (insert_by lt x ys) = Suc (length ys)"
  by (induction ys) auto

lemma length_sort_Slice: "length (sort_Slice lt xs) = length xs"
  by (induction xs) (auto simp: sort_Slice_def length_insert_by)

lemma sorted_sort_Slice: "sorted_wrt node_le (sort_Slice node_less xs)"
proof (induction xs)
  case Nil
  show ?case by (simp add: sort_Slice_def)
next
  case (Cons x xs)
  have "sort_Slice node_less (x # xs) = insert_by node_less x (sort_Slice node_less xs)"
    by (simp add: sort_Slice_def)
  with Cons show ?case by (simp add: sorted_insert_by)
qed

lemma sorted_node_le_dirs_first:
  "sorted_wrt node_le cs \<Longrightarrow> dirs_first_alphabetical cs"
proof (induction cs)
  case Nil
  show ?case by (simp add: dirs_first_alphabetical_def)
next
  case (Cons x cs)
  then have le: "\<forall>y \<in> set cs. node_le x y" and ih: "dirs_first_alphabetical cs" by simp_all
  show ?case
  proof (cases "isDir x")
    case True
    have "\<forall>y \<in> set (filter isDir cs). name x \<le> name y"
      using le True by (auto simp: node_le_def node_less_def split: if_splits)
    with ih True show ?thesis by (auto simp: dirs_first_alphabetical_def)
  next
    case False
    have nod: "\<forall>y \<in> set cs. \<not> isDir y"
      using le False by (auto simp: node_le_def node_less_def split: if_splits)
    then have f: "filter isDir cs = []" and g: "filter (\<lambda>c. \<not> isDir c) cs = cs"
      by (auto simp: filter_empty_conv)
    have "\<forall>y \<in> set cs. name x \<le> name y"
      using le False nod by (auto simp: node_le_def node_less_def split: if_splits)
    with ih False f g show ?thesis by (auto simp: dirs_first_alphabetical_def)
  qed
qed

declare finalizeTree.simps [simp del]

lemma wf_tree_sel:
  "wf_tree n \<longleftrightarrow>
     (\<not> isDir n \<longrightarrow> children n = []) \<and>
     (\<forall>c \<in> set (children n). depth c = depth n + 1 \<and> wf_tree c)"
  by (cases n) simp

lemma ordered_tree_sel:
  "ordered_tree n \<longleftrightarrow>
     (isDir n \<longrightarrow> dirs_first_alphabetical (children n)) \<and>
     (\<forall>c \<in> set (children n). ordered_tree c)"
  by (cases n) simp

lemma set_fields [simp]:
  "name (set_children cs n) = name n" "relBase (set_children cs n) = relBase n"
  "isDir (set_children cs n) = isDir n" "children (set_children cs n) = cs"
  "depth (set_children cs n) = depth n" "expanded (set_children cs n) = expanded n"
  "selected (set_children cs n) = selected n"
  "name (set_expanded e n) = name n" "relBase (set_expanded e n) = relBase n"
  "isDir (set_expanded e n) = isDir n" "children (set_expanded e n) = children n"
  "depth (set_expanded e n) = depth n" "expanded (set_expanded e n) = e"
  "selected (set_expanded e n) = selected n"
  "name (set_selected s n) = name n" "relBase (set_selected s n) = relBase n"
  "isDir (set_selected s n) = isDir n" "children (set_selected s n) = children n"
  "depth (set_selected s n) = depth n" "expanded (set_selected s n) = expanded n"
  "selected (set_selected s n) = s"
  by (simp_all add: set_children_def set_expanded_def set_selected_def)

lemma finalizeTree_fields:
  "name (finalizeTree n) = name n" "isDir (finalizeTree n) = isDir n"
  "depth (finalizeTree n) = depth n" "relBase (finalizeTree n) = relBase n"
  "selected (finalizeTree n) = selected n"
  by (subst finalizeTree.simps, simp add: Let_def)+

lemma finalizeTree_children:
  "isDir n \<Longrightarrow>
     children (finalizeTree n) = map finalizeTree (sort_Slice node_less (children n))"
  by (subst finalizeTree.simps) (simp add: Let_def)

lemma finalizeTree_file: "\<not> isDir n \<Longrightarrow> finalizeTree n = n"
  by (subst finalizeTree.simps) simp

lemma node_le_finalizeTree:
  "node_le (finalizeTree a) (finalizeTree b) = node_le a b"
  by (simp add: node_le_def node_less_def finalizeTree_fields)

lemma finalizeTree_wf_ordered:
  "wf_tree n \<Longrightarrow> wf_tree (finalizeTree n) \<and> ordered_tree (finalizeTree n)"
proof (induction n rule: finalizeTree.induct)
  case (1 n)
  show ?case
  proof (cases "isDir n")
    case False
    with "1.prems" have "children n = []" by (simp add: wf_tree_sel [of n])
    then have "ordered_tree n" using False by (simp add: ordered_tree_sel [of n])
    with False "1.prems" show ?thesis by (simp add: finalizeTree_file)
  next
    case True
    let ?cs = "sort_Slice node_less (children n)"
    have sub: "depth c = depth n + 1 \<and> wf_tree c" if "c \<in> set ?cs" for c
    proof -
      from that have "c \<in> set (children n)" by (simp add: set_sort_Slice)
      with "1.prems" show ?thesis by (simp add: wf_tree_sel [of n])
    qed
    have ih: "wf_tree (finalizeTree c) \<and> ordered_tree (finalizeTree c)" if "c \<in> set ?cs" for c
    proof (rule "1.IH")
      show "\<not> \<not> isDir n" using True by simp
      show "?cs = sort_Slice node_less (children n)" by (rule refl)
      show "c \<in> set ?cs" by (rule that)
      show "wf_tree c" using sub [OF that] by simp
    qed
    have ch: "children (finalizeTree n) = map finalizeTree ?cs"
      using True by (rule finalizeTree_children)
    have "sorted_wrt node_le (map finalizeTree ?cs)"
      using sorted_sort_Slice [of "children n"]
      by (simp add: sorted_wrt_map node_le_finalizeTree)
    then have dfa: "dirs_first_alphabetical (children (finalizeTree n))"
      unfolding ch by (rule sorted_node_le_dirs_first)
    have a: "\<forall>c' \<in> set (children (finalizeTree n)).
               depth c' = depth (finalizeTree n) + 1 \<and> wf_tree c'"
    proof
      fix c' assume "c' \<in> set (children (finalizeTree n))"
      then obtain c where c: "c \<in> set ?cs" and c': "c' = finalizeTree c"
        unfolding ch by auto
      from sub [OF c] ih [OF c] show "depth c' = depth (finalizeTree n) + 1 \<and> wf_tree c'"
        unfolding c' by (simp add: finalizeTree_fields)
    qed
    have b: "\<forall>c' \<in> set (children (finalizeTree n)). ordered_tree c'"
    proof
      fix c' assume "c' \<in> set (children (finalizeTree n))"
      then obtain c where c: "c \<in> set ?cs" and c': "c' = finalizeTree c"
        unfolding ch by auto
      from ih [OF c] show "ordered_tree c'" unfolding c' by simp
    qed
    have "isDir (finalizeTree n)" using True by (simp add: finalizeTree_fields)
    with a have "wf_tree (finalizeTree n)"
      by (subst wf_tree_sel) simp
    moreover from b dfa have "ordered_tree (finalizeTree n)"
      by (subst ordered_tree_sel) simp
    ultimately show ?thesis by blast
  qed
qed

lemma child_index_Some:
  "child_index nm cs = Some i \<Longrightarrow> i < length cs \<and> name (cs ! i) = nm"
proof (induction cs arbitrary: i)
  case Nil
  then show ?case by simp
next
  case (Cons c cs)
  then show ?case by (auto split: if_splits)
qed

lemma child_Some:
  "child n nm = Some (i, c) \<Longrightarrow>
     isDir n \<and> i < length (children n) \<and> c = children n ! i \<and> name c = nm"
  by (auto simp: child_def split: if_splits option.splits dest: child_index_Some)

lemma wf_tree_update:
  assumes "wf_tree cur" and "i < length (children cur)" and "wf_tree c'"
    and "depth c' = depth (children cur ! i)"
  shows "wf_tree (set_children ((children cur)[i := c']) cur)"
proof -
  have d: "depth (children cur ! i) = depth cur + 1"
    using assms(1,2) by (simp add: wf_tree_sel [of cur])
  have nonfile: "isDir cur" using assms(1,2) by (auto simp: wf_tree_sel [of cur])
  have "\<forall>c \<in> set ((children cur)[i := c']). depth c = depth cur + 1 \<and> wf_tree c"
  proof
    fix c assume "c \<in> set ((children cur)[i := c'])"
    then have "c = c' \<or> c \<in> set (children cur)"
      using set_update_subset_insert [of "children cur" i c'] by auto
    then show "depth c = depth cur + 1 \<and> wf_tree c"
      using assms d by (auto simp: wf_tree_sel [of cur])
  qed
  with nonfile show ?thesis by (subst wf_tree_sel) simp
qed

lemma wf_tree_new:
  "wf_tree (newDir parent nm rel)" "wf_tree (newFile parent nm rel)"
  by (simp_all add: newDir_def newFile_def)

lemma wf_tree_addChild:
  assumes "wf_tree cur" and "addChild cur c = Inr cur'" and "wf_tree c"
    and "depth c = depth cur + 1"
  shows "wf_tree cur' \<and> depth cur' = depth cur \<and> isDir cur' = isDir cur \<and>
         children cur' = children cur @ [c]"
proof -
  from assms(2) have dir: "isDir cur" and eq: "cur' = set_children (children cur @ [c]) cur"
    by (auto simp: addChild_def split: if_splits)
  have "wf_tree cur'"
    unfolding eq using assms(1,3,4) dir
    by (subst wf_tree_sel) (auto simp: wf_tree_sel [of cur])
  then show ?thesis by (simp add: eq)
qed

lemma insertParts_step:
  "rest = v # va \<Longrightarrow>
   insertParts cur (part # rest) =
     (case child cur part of
        Some (i, c) \<Rightarrow>
          (case insertParts c rest of
             Inl e \<Rightarrow> Inl e
           | Inr c' \<Rightarrow> Inr (set_children ((children cur)[i := c']) cur))
      | None \<Rightarrow>
          (let rel = filepath_Join (relBase cur) (filepath_FromSlash part);
               d = newDir (Some cur) part rel
           in case addChild cur d of
                Inl e \<Rightarrow> Inl e
              | Inr cur1 \<Rightarrow>
                  (case insertParts d rest of
                     Inl e \<Rightarrow> Inl e
                   | Inr d' \<Rightarrow>
                       Inr (set_children ((children cur1)[length (children cur) := d']) cur1))))"
  by (simp only: insertParts.simps(3))

lemma insertParts_wf:
  "wf_tree cur \<Longrightarrow> insertParts cur parts = Inr cur' \<Longrightarrow>
     wf_tree cur' \<and> depth cur' = depth cur \<and> isDir cur' = isDir cur"
proof (induction parts arbitrary: cur cur')
  case Nil
  then show ?case by simp
next
  case (Cons part rest)
  note wf = Cons.prems(1) and run = Cons.prems(2)
  show ?case
  proof (cases rest)
    case Nil
    show ?thesis
    proof (cases "child cur part")
      case (Some a)
      with run Nil wf show ?thesis by simp
    next
      case None
      let ?f = "newFile (Some cur) part (filepath_Join (relBase cur) (filepath_FromSlash part))"
      from None run Nil have add: "addChild cur ?f = Inr cur'" by (simp add: Let_def)
      have "depth ?f = depth cur + 1" by (simp add: newFile_def)
      from wf_tree_addChild [OF wf add wf_tree_new(2) this] show ?thesis by simp
    qed
  next
    case (Cons v va)
    show ?thesis
    proof (cases "child cur part")
      case (Some a)
      obtain i c where a: "a = (i, c)" by (cases a)
      from child_Some [of cur part i c] Some a
      have i: "i < length (children cur)" and c: "c = children cur ! i"
        by auto
      from run [unfolded insertParts_step [OF Cons]] Some a
      obtain c' where ins: "insertParts c rest = Inr c'"
        and cur': "cur' = set_children ((children cur)[i := c']) cur"
        by (auto split: sum.splits)
      have "wf_tree c" using wf i c by (auto simp: wf_tree_sel [of cur])
      from Cons.IH [OF this ins] have "wf_tree c'" and "depth c' = depth c" by auto
      with wf_tree_update [OF wf i, of c'] c cur' show ?thesis by simp
    next
      case None
      let ?d = "newDir (Some cur) part (filepath_Join (relBase cur) (filepath_FromSlash part))"
      from run [unfolded insertParts_step [OF Cons]] None
      obtain cur1 d' where add: "addChild cur ?d = Inr cur1"
        and ins: "insertParts ?d rest = Inr d'"
        and cur': "cur' = set_children ((children cur1)[length (children cur) := d']) cur1"
        by (auto simp: Let_def split: sum.splits)
      have dd: "depth ?d = depth cur + 1" by (simp add: newDir_def)
      from wf_tree_addChild [OF wf add wf_tree_new(1) dd]
      have w1: "wf_tree cur1" and d1: "depth cur1 = depth cur" and i1: "isDir cur1 = isDir cur"
        and c1: "children cur1 = children cur @ [?d]" by auto
      from Cons.IH [OF wf_tree_new(1) ins]
      have "wf_tree d'" and "depth d' = depth ?d" by auto
      moreover have "length (children cur) < length (children cur1)" by (simp add: c1)
      moreover have "children cur1 ! length (children cur) = ?d" by (simp add: c1)
      ultimately show ?thesis
        using wf_tree_update [OF w1, of "length (children cur)" d'] cur' d1 i1 by simp
    qed
  qed
qed

lemma build_loop_wf:
  "wf_tree rt \<Longrightarrow> build_loop s rt files = Inr rt' \<Longrightarrow> wf_tree rt' \<and> depth rt' = depth rt"
proof (induction files arbitrary: rt)
  case Nil
  then show ?case by simp
next
  case (Cons full files)
  show ?case
  proof (cases "build_loop s rt (full # files) = build_loop s rt files")
    case True
    with Cons show ?thesis by simp
  next
    case False
    then obtain parts rt1 where "insertParts rt parts = Inr rt1"
      and "build_loop s rt1 files = Inr rt'"
      using Cons.prems(2) by (auto simp: Let_def split: if_splits sum.splits)
    with Cons.IH [of rt1] insertParts_wf [OF Cons.prems(1), of parts rt1]
    show ?thesis by simp
  qed
qed

lemma buildTree_wf_ordered:
  assumes "buildTree s files = Inr t"
  shows "wf_tree t \<and> ordered_tree t \<and> depth t = 0"
proof -
  let ?rt = "newDir None s (filepath_FromSlash s)"
  from assms obtain rt' where bl: "build_loop s ?rt files = Inr rt'"
    and t: "t = finalizeTree rt'"
    by (auto simp: buildTree_def Let_def split: sum.splits)
  have "depth ?rt = 0" by (simp add: newDir_def)
  with build_loop_wf [OF wf_tree_new(1) bl] have "wf_tree rt'" and "depth rt' = 0" by auto
  with finalizeTree_wf_ordered [of rt'] t show ?thesis by (simp add: finalizeTree_fields)
qed

lemma node_at_wf:
  "wf_tree t \<Longrightarrow> node_at t p = Some n \<Longrightarrow> wf_tree n \<and> depth n = depth t + int (length p)"
proof (induction p arbitrary: t)
  case Nil
  then show ?case by simp
next
  case (Cons i p)
  from Cons.prems(2) have i: "i < length (children t)"
    and at: "node_at (children t ! i) p = Some n"
    by (auto split: if_splits)
  from Cons.prems(1) i have "wf_tree (children t ! i)" and "depth (children t ! i) = depth t + 1"
    by (auto simp: wf_tree_sel [of t])
  with Cons.IH [OF _ at] show ?case by simp
qed

lemma node_at_ordered:
  "ordered_tree t \<Longrightarrow> node_at t p = Some n \<Longrightarrow> ordered_tree n"
proof (induction p arbitrary: t)
  case Nil
  then show ?case by simp
next
  case (Cons i p)
  from Cons.prems(2) have i: "i < length (children t)"
    and at: "node_at (children t ! i) p = Some n"
    by (auto split: if_splits)
  from Cons.prems(1) i have "ordered_tree (children t ! i)"
    by (auto simp: ordered_tree_sel [of t])
  with Cons.IH [OF _ at] show ?case by simp
qed

section \<open>Paths that are already in the tree\<close>

lemma set_children_same: "set_children (children n) n = n"
  by (cases n) (simp add: set_children_def)

lemma insertParts_existing:
  "parts \<noteq> [] \<Longrightarrow> lookup cur parts = Some x \<Longrightarrow> insertParts cur parts = Inr cur"
proof (induction parts arbitrary: cur)
  case Nil
  then show ?case by simp
next
  case (Cons part rest)
  from Cons.prems(2) obtain i c where ch: "child cur part = Some (i, c)"
    and lk: "lookup c rest = Some x"
    by (auto split: option.splits)
  show ?case
  proof (cases rest)
    case Nil
    with ch show ?thesis by simp
  next
    case (Cons v va)
    then have "rest \<noteq> []" by simp
    from Cons.IH [OF this lk] have ins: "insertParts c rest = Inr c" .
    from child_Some [OF ch] have "c = children cur ! i" by simp
    then have "(children cur)[i := c] = children cur" by simp
    with ch ins show ?thesis
      by (simp add: insertParts_step [OF Cons] set_children_same)
  qed
qed

lemma child_file: "\<not> isDir n \<Longrightarrow> child n part = None"
  by (simp add: child_def)

lemma insertParts_on_file:
  "\<not> isDir cur \<Longrightarrow> parts \<noteq> [] \<Longrightarrow> insertParts cur parts = Inl PanicAddChildOnFile"
proof (cases parts)
  case Nil
  assume "parts \<noteq> []"
  with Nil show ?thesis by simp
next
  case (Cons part rest)
  assume f: "\<not> isDir cur"
  show ?thesis
  proof (cases rest)
    case Nil
    with Cons f show ?thesis by (simp add: child_file addChild_def Let_def)
  next
    case (Cons v va)
    with \<open>parts = part # rest\<close> f show ?thesis
      by (simp add: child_file addChild_def Let_def)
  qed
qed

lemma blocked_file: "\<not> isDir cur \<Longrightarrow> parts \<noteq> [] \<Longrightarrow> blocked cur parts"
  unfolding blocked_def by (rule exI [of _ "[]"]) auto

lemma blocked_dir_Cons:
  assumes "isDir cur"
  shows "blocked cur (part # rest) \<longleftrightarrow>
           (case child cur part of None \<Rightarrow> False | Some (i, c) \<Rightarrow> blocked c rest)"
proof
  assume "blocked cur (part # rest)"
  then obtain ps qs f where eq: "part # rest = ps @ qs" and q: "qs \<noteq> []"
    and lk: "lookup cur ps = Some f" and f: "\<not> isDir f"
    unfolding blocked_def by blast
  from lk f assms have "ps \<noteq> []" by auto
  then obtain ps' where ps: "ps = part # ps'" and rest: "rest = ps' @ qs"
    using eq by (cases ps) auto
  from lk ps obtain i c where ch: "child cur part = Some (i, c)" and lk': "lookup c ps' = Some f"
    by (auto split: option.splits)
  from rest q lk' f have "blocked c rest" unfolding blocked_def by blast
  with ch show "case child cur part of None \<Rightarrow> False | Some (i, c) \<Rightarrow> blocked c rest" by simp
next
  assume r: "case child cur part of None \<Rightarrow> False | Some (i, c) \<Rightarrow> blocked c rest"
  then obtain i c where ch: "child cur part = Some (i, c)" and b: "blocked c rest"
    by (auto split: option.splits)
  from b obtain ps qs f where "rest = ps @ qs" and "qs \<noteq> []"
    and "lookup c ps = Some f" and "\<not> isDir f"
    unfolding blocked_def by blast
  with ch have "part # rest = (part # ps) @ qs \<and> qs \<noteq> [] \<and>
      lookup cur (part # ps) = Some f \<and> \<not> isDir f" by simp
  then show "blocked cur (part # rest)" unfolding blocked_def by blast
qed

lemma not_blocked_Nil: "\<not> blocked cur []"
  by (simp add: blocked_def)

lemma not_blocked_fresh: "isDir d \<Longrightarrow> children d = [] \<Longrightarrow> \<not> blocked d parts"
proof (cases parts)
  case Nil
  then show ?thesis by (simp add: not_blocked_Nil)
next
  case (Cons part rest)
  assume "isDir d" and "children d = []"
  then have "child d part = None" by (simp add: child_def)
  with \<open>isDir d\<close> Cons show ?thesis by (simp add: blocked_dir_Cons)
qed

lemma insertParts_panics_iff:
  "(\<exists>e. insertParts cur parts = Inl e) \<longleftrightarrow> blocked cur parts"
proof (induction parts arbitrary: cur)
  case Nil
  show ?case by (simp add: not_blocked_Nil)
next
  case (Cons part rest)
  show ?case
  proof (cases "isDir cur")
    case False
    then show ?thesis by (simp add: insertParts_on_file blocked_file)
  next
    case True
    show ?thesis
    proof (cases rest)
      case Nil
      show ?thesis
      proof (cases "child cur part")
        case None
        with True Nil show ?thesis
          by (simp add: blocked_dir_Cons addChild_def Let_def)
      next
        case (Some a)
        obtain i c where a: "a = (i, c)" by (cases a)
        with Some True Nil show ?thesis
          by (simp add: blocked_dir_Cons not_blocked_Nil)
      qed
    next
      case (Cons v va)
      note step = insertParts_step [OF Cons]
      show ?thesis
      proof (cases "child cur part")
        case None
        let ?d = "newDir (Some cur) part (filepath_Join (relBase cur) (filepath_FromSlash part))"
        have "\<not> blocked ?d rest"
          by (rule not_blocked_fresh) (simp_all add: newDir_def)
        with Cons.IH [of ?d] obtain d' where "insertParts ?d rest = Inr d'"
          by (cases "insertParts ?d rest") auto
        with None True show ?thesis
          by (simp add: step blocked_dir_Cons addChild_def Let_def)
      next
        case (Some a)
        obtain i c where a: "a = (i, c)" by (cases a)
        with Some True Cons.IH [of c] show ?thesis
          by (auto simp: step blocked_dir_Cons split: sum.splits)
      qed
    qed
  qed
qed

lemma insertParts_panic_value:
  "insertParts cur parts = Inl e \<Longrightarrow> e = PanicAddChildOnFile"
proof (induction parts arbitrary: cur)
  case Nil
  then show ?case by simp
next
  case (Cons part rest)
  show ?case
  proof (cases rest)
    case Nil
    with Cons.prems show ?thesis
      by (auto simp: addChild_def Let_def split: option.splits if_splits)
  next
    case (Cons v va)
    note step = insertParts_step [OF Cons]
    from Cons.prems [unfolded step] Cons.IH show ?thesis
      by (auto simp: addChild_def Let_def split: option.splits sum.splits if_splits)
  qed
qed

lemma build_loop_Cons:
  "build_loop s rt (full # files) =
     (case parts_of s full of
        None \<Rightarrow> build_loop s rt files
      | Some parts \<Rightarrow>
          (case insertParts rt parts of
             Inl e \<Rightarrow> Inl e
           | Inr rt' \<Rightarrow> build_loop s rt' files))"
  by (simp add: parts_of_def Let_def)

declare build_loop.simps(2) [simp del]

lemma split_on_not_Nil: "split_on sep s \<noteq> []"
  by (induction s) (auto split: list.splits)

lemma parts_of_not_Nil: "parts_of s full = Some parts \<Longrightarrow> parts \<noteq> []"
  by (auto simp: parts_of_def strings_Split_def split_on_not_Nil Let_def split: if_splits)

lemma child_index_None: "child_index nm cs = None \<longleftrightarrow> nm \<notin> name ` set cs"
  by (induction cs) auto

lemma child_index_names:
  "map name cs = map name cs' \<Longrightarrow> child_index nm cs = child_index nm cs'"
proof (induction cs arbitrary: cs')
  case Nil
  then show ?case by simp
next
  case (Cons c cs)
  then obtain c' cs1 where "cs' = c' # cs1" and "name c = name c'" and "map name cs = map name cs1"
    by (cases cs') auto
  with Cons.IH [of cs1] show ?case by simp
qed

lemma child_index_append:
  "child_index nm (cs @ [x]) =
     (case child_index nm cs of
        Some i \<Rightarrow> Some i
      | None \<Rightarrow> if name x = nm then Some (length cs) else None)"
  by (induction cs) (auto split: option.splits)

lemma child_index_update:
  assumes "i < length cs" and "name c' = name (cs ! i)"
  shows "child_index nm (cs[i := c']) = child_index nm cs"
proof (rule child_index_names)
  have "map name (cs[i := c']) = (map name cs)[i := name c']" by (rule map_update)
  also have "\<dots> = map name cs" using assms by (simp add: list_update_same_conv)
  finally show "map name (cs[i := c']) = map name cs" .
qed

lemma insertParts_name:
  "insertParts cur parts = Inr cur' \<Longrightarrow> name cur' = name cur \<and> isDir cur' = isDir cur"
proof (cases parts)
  case Nil
  assume "insertParts cur parts = Inr cur'"
  with Nil show ?thesis by simp
next
  case (Cons part rest)
  assume run: "insertParts cur parts = Inr cur'"
  show ?thesis
  proof (cases rest)
    case Nil
    with run Cons show ?thesis
      by (auto simp: addChild_def Let_def split: option.splits if_splits)
  next
    case (Cons v va)
    from run [unfolded \<open>parts = part # rest\<close> insertParts_step [OF Cons]] show ?thesis
      by (auto simp: addChild_def Let_def split: option.splits sum.splits if_splits)
  qed
qed

text \<open>The three shapes of the result of a successful insertion below \<open>cur\<close>.\<close>

lemma insertParts_result:
  assumes "insertParts cur (part # rest) = Inr cur'"
  shows "(\<exists>i c. child cur part = Some (i, c) \<and> rest = [] \<and> cur' = cur) \<or>
         (\<exists>i c c'. child cur part = Some (i, c) \<and> rest \<noteq> [] \<and> insertParts c rest = Inr c' \<and>
             cur' = set_children ((children cur)[i := c']) cur) \<or>
         (\<exists>d d'. child cur part = None \<and> isDir cur \<and> name d = part \<and> isDir d \<and> children d = [] \<and>
             insertParts d rest = Inr d' \<and>
             cur' = set_children (children cur @ [d']) cur) \<or>
         (\<exists>f. child cur part = None \<and> isDir cur \<and> name f = part \<and> rest = [] \<and>
             cur' = set_children (children cur @ [f]) cur)"
proof (cases rest)
  case Nil
  show ?thesis
  proof (cases "child cur part")
    case (Some a)
    obtain i c where "a = (i, c)" by (cases a)
    with assms Some Nil show ?thesis by simp
  next
    case None
    let ?f = "newFile (Some cur) part (filepath_Join (relBase cur) (filepath_FromSlash part))"
    from assms None Nil have "isDir cur" and "cur' = set_children (children cur @ [?f]) cur"
      by (auto simp: addChild_def Let_def split: if_splits)
    moreover have "name ?f = part" by (simp add: newFile_def)
    ultimately show ?thesis using None Nil by blast
  qed
next
  case (Cons v va)
  note step = insertParts_step [OF Cons]
  show ?thesis
  proof (cases "child cur part")
    case (Some a)
    obtain i c where a: "a = (i, c)" by (cases a)
    with assms [unfolded step] Some Cons show ?thesis by (auto split: sum.splits)
  next
    case None
    let ?d = "newDir (Some cur) part (filepath_Join (relBase cur) (filepath_FromSlash part))"
    from assms [unfolded step] None obtain d' where dir: "isDir cur"
      and ins: "insertParts ?d rest = Inr d'"
      and cur': "cur' = set_children ((children cur @ [?d])[length (children cur) := d']) cur"
      by (auto simp: addChild_def Let_def set_children_def split: sum.splits if_splits)
    have "(children cur @ [?d])[length (children cur) := d'] = children cur @ [d']" by simp
    with cur' have "cur' = set_children (children cur @ [d']) cur" by simp
    moreover have "name ?d = part" "isDir ?d" "children ?d = []" by (simp_all add: newDir_def)
    ultimately show ?thesis using None dir ins by blast
  qed
qed

lemma child_after_append:
  assumes "isDir cur" and "child cur nm = Some (j, cj)"
  shows "child (set_children (children cur @ [x]) cur) nm = Some (j, cj)"
proof -
  from assms have ci: "child_index nm (children cur) = Some j" and cj: "cj = children cur ! j"
    by (auto simp: child_def split: option.splits)
  from ci have "j < length (children cur)" by (auto dest: child_index_Some)
  with ci cj assms(1) show ?thesis
    by (simp add: child_def child_index_append nth_append)
qed

lemma lookup_preserved:
  "insertParts cur q = Inr cur' \<Longrightarrow> lookup cur ps = Some x \<Longrightarrow> \<exists>y. lookup cur' ps = Some y"
proof (induction q arbitrary: cur cur' ps x)
  case Nil
  then show ?case by simp
next
  case (Cons part rest)
  show ?case
  proof (cases ps)
    case Nil
    then show ?thesis by simp
  next
    case (Cons p ps')
    from Cons.prems(2) [unfolded Cons] obtain j cj where ch: "child cur p = Some (j, cj)"
      and lk: "lookup cj ps' = Some x"
      by (auto split: option.splits)
    from child_Some [OF ch] have dir: "isDir cur" and j: "j < length (children cur)"
      and cj: "cj = children cur ! j" by auto
    from insertParts_result [OF Cons.prems(1)] show ?thesis
    proof (elim disjE exE conjE)
      fix i c assume "cur' = cur"
      with Cons.prems(2) show ?thesis by simp
    next
      fix i c c'
      assume chi: "child cur part = Some (i, c)" and ins: "insertParts c rest = Inr c'"
        and cur': "cur' = set_children ((children cur)[i := c']) cur"
      from child_Some [OF chi] have i: "i < length (children cur)" and c: "c = children cur ! i"
        by auto
      from insertParts_name [OF ins] c have nm: "name c' = name (children cur ! i)" by simp
      from ch have "child_index p (children cur) = Some j"
        by (auto simp: child_def split: option.splits if_splits)
      then have ci: "child_index p ((children cur)[i := c']) = Some j"
        by (simp add: child_index_update [OF i nm])
      show ?thesis
      proof (cases "j = i")
        case True
        with ci dir i cur' have "child cur' p = Some (i, c')" by (simp add: child_def)
        moreover from lk True cj c Cons.IH [OF ins, of ps' x]
        obtain y where "lookup c' ps' = Some y" by auto
        ultimately show ?thesis using Cons by simp
      next
        case False
        with ci dir j cur' cj have "child cur' p = Some (j, cj)" by (simp add: child_def)
        with lk Cons show ?thesis by simp
      qed
    next
      fix d d'
      assume "cur' = set_children (children cur @ [d']) cur"
      with child_after_append [OF dir ch, of d'] lk Cons show ?thesis by simp
    next
      fix f
      assume "cur' = set_children (children cur @ [f]) cur"
      with child_after_append [OF dir ch, of f] lk Cons show ?thesis by simp
    qed
  qed
qed

lemma lookup_inserted:
  "insertParts cur parts = Inr cur' \<Longrightarrow> parts \<noteq> [] \<Longrightarrow> \<exists>y. lookup cur' parts = Some y"
proof (induction parts arbitrary: cur cur')
  case Nil
  then show ?case by simp
next
  case (Cons part rest)
  from insertParts_result [OF Cons.prems(1)] show ?case
  proof (elim disjE exE conjE)
    fix i c assume "child cur part = Some (i, c)" and "rest = []" and "cur' = cur"
    then show ?thesis by simp
  next
    fix i c c'
    assume chi: "child cur part = Some (i, c)" and r: "rest \<noteq> []"
      and ins: "insertParts c rest = Inr c'"
      and cur': "cur' = set_children ((children cur)[i := c']) cur"
    from child_Some [OF chi] have dir: "isDir cur" and i: "i < length (children cur)"
      and c: "c = children cur ! i" by auto
    from insertParts_name [OF ins] c have nm: "name c' = name (children cur ! i)" by simp
    from chi have "child_index part (children cur) = Some i"
      by (auto simp: child_def split: option.splits if_splits)
    then have "child_index part ((children cur)[i := c']) = Some i"
      by (simp add: child_index_update [OF i nm])
    with dir i cur' have "child cur' part = Some (i, c')" by (simp add: child_def)
    with Cons.IH [OF ins r] show ?thesis by auto
  next
    fix d d'
    assume none: "child cur part = None" and dir: "isDir cur" and nd: "name d = part"
      and ins: "insertParts d rest = Inr d'"
      and cur': "cur' = set_children (children cur @ [d']) cur"
    from none dir have "child_index part (children cur) = None"
      by (auto simp: child_def split: option.splits)
    moreover from insertParts_name [OF ins] nd have "name d' = part" by simp
    ultimately have "child cur' part = Some (length (children cur), d')"
      using dir cur' by (simp add: child_def child_index_append)
    moreover have "\<exists>y. lookup d' rest = Some y"
    proof (cases rest)
      case Nil
      then show ?thesis by simp
    next
      case (Cons v va)
      then have "rest \<noteq> []" by simp
      from Cons.IH [OF ins this] show ?thesis .
    qed
    ultimately show ?thesis by auto
  next
    fix f
    assume none: "child cur part = None" and dir: "isDir cur" and nf: "name f = part"
      and r: "rest = []" and cur': "cur' = set_children (children cur @ [f]) cur"
    from none dir have "child_index part (children cur) = None"
      by (auto simp: child_def split: option.splits)
    with dir cur' nf have "child cur' part = Some (length (children cur), f)"
      by (simp add: child_def child_index_append)
    with r show ?thesis by simp
  qed
qed

lemma build_loop_lookup_preserved:
  "build_loop s rt files = Inr rt' \<Longrightarrow> lookup rt ps = Some x \<Longrightarrow> \<exists>y. lookup rt' ps = Some y"
proof (induction files arbitrary: rt x)
  case Nil
  then show ?case by simp
next
  case (Cons full files)
  show ?case
  proof (cases "parts_of s full")
    case None
    with Cons show ?thesis by (simp add: build_loop_Cons)
  next
    case (Some parts)
    with Cons.prems(1) obtain rt1 where ins: "insertParts rt parts = Inr rt1"
      and bl: "build_loop s rt1 files = Inr rt'"
      by (auto simp: build_loop_Cons split: sum.splits)
    from lookup_preserved [OF ins Cons.prems(2)] obtain y where "lookup rt1 ps = Some y" ..
    from Cons.IH [OF bl this] show ?thesis .
  qed
qed

lemma build_loop_lookup_done:
  "build_loop s rt files = Inr rt' \<Longrightarrow> full \<in> set files \<Longrightarrow> parts_of s full = Some parts \<Longrightarrow>
     \<exists>y. lookup rt' parts = Some y"
proof (induction files arbitrary: rt)
  case Nil
  then show ?case by simp
next
  case (Cons f files)
  show ?case
  proof (cases "parts_of s f")
    case None
    with Cons.prems have "build_loop s rt files = Inr rt'" and "full \<in> set files"
      by (auto simp: build_loop_Cons)
    from Cons.IH [OF this Cons.prems(3)] show ?thesis .
  next
    case (Some fp)
    with Cons.prems(1) obtain rt1 where ins: "insertParts rt fp = Inr rt1"
      and bl: "build_loop s rt1 files = Inr rt'"
      by (auto simp: build_loop_Cons split: sum.splits)
    show ?thesis
    proof (cases "full = f")
      case True
      with Some Cons.prems(3) have "fp = parts" by simp
      with lookup_inserted [OF ins] parts_of_not_Nil [OF Cons.prems(3)]
      obtain y where "lookup rt1 parts = Some y" by auto
      from build_loop_lookup_preserved [OF bl this] show ?thesis .
    next
      case False
      with Cons.prems(2) have "full \<in> set files" by simp
      from Cons.IH [OF bl this Cons.prems(3)] show ?thesis .
    qed
  qed
qed

lemma build_loop_skip_existing:
  assumes "parts_of s full = Some parts" and "lookup rt parts = Some y"
  shows "build_loop s rt (full # files) = build_loop s rt files"
  using assms insertParts_existing [OF parts_of_not_Nil [OF assms(1)] assms(2)]
  by (simp add: build_loop_Cons)

lemma lookup_prefix:
  "lookup t (ps @ qs) = Some y \<Longrightarrow> \<exists>z. lookup t ps = Some z"
  by (induction ps arbitrary: t) (auto split: option.splits)

lemma split_on_append:
  "split_on sep (a @ sep # b) = split_on sep a @ split_on sep b"
proof (induction a)
  case Nil
  show ?case by simp
next
  case (Cons c a)
  obtain p ps where "split_on sep a = p # ps"
    using split_on_not_Nil [of sep a] by (cases "split_on sep a") auto
  with Cons show ?case by simp
qed

lemma parts_of_below:
  assumes "parts_of s full = Some parts"
  shows "parts_of s (full @ ''/'' @ below) = Some (parts @ strings_Split below)"
proof (cases "s = ''.''")
  case True
  with assms have "full \<noteq> []" and "parts = strings_Split full"
    by (auto simp: parts_of_def Let_def split: if_splits)
  with True show ?thesis
    by (simp add: parts_of_def strings_Split_def split_on_append)
next
  case False
  let ?pre = "s @ ''/''"
  from assms False have hp: "strings_HasPrefix full ?pre"
    and ne: "strings_TrimPrefix full ?pre \<noteq> []"
    and parts: "parts = strings_Split (strings_TrimPrefix full ?pre)"
    by (auto simp: parts_of_def Let_def split: if_splits)
  from hp have tk: "take (length ?pre) full = ?pre" by (simp add: strings_HasPrefix_def)
  then have len: "length ?pre \<le> length full"
    by (metis length_take min.cobounded1 min.commute)
  from hp have tp: "strings_TrimPrefix full ?pre = drop (length ?pre) full"
    by (simp add: strings_TrimPrefix_def)
  from tk len have hp': "strings_HasPrefix (full @ ''/'' @ below) ?pre"
    by (simp add: strings_HasPrefix_def)
  then have tp': "strings_TrimPrefix (full @ ''/'' @ below) ?pre =
      drop (length ?pre) full @ ''/'' @ below"
    using len by (simp add: strings_TrimPrefix_def)
  show ?thesis
    using False hp' ne parts
    by (simp only: parts_of_def tp tp' Let_def strings_Split_def)
      (simp add: split_on_append)
qed

lemma build_loop_skip_known:
  assumes "build_loop s rt before = Inr rt'"
    and "full \<in> set before \<or> (\<exists>below. full @ ''/'' @ below \<in> set before)"
  shows "build_loop s rt' (full # after) = build_loop s rt' after"
proof (cases "parts_of s full")
  case None
  then show ?thesis by (simp add: build_loop_Cons)
next
  case (Some parts)
  from assms(2) have "\<exists>y. lookup rt' parts = Some y"
  proof
    assume "full \<in> set before"
    from build_loop_lookup_done [OF assms(1) this Some] show ?thesis .
  next
    assume "\<exists>below. full @ ''/'' @ below \<in> set before"
    then obtain below where m: "full @ ''/'' @ below \<in> set before" ..
    from build_loop_lookup_done [OF assms(1) m parts_of_below [OF Some]]
    obtain y where "lookup rt' (parts @ strings_Split below) = Some y" ..
    then show ?thesis by (rule lookup_prefix)
  qed
  then obtain y where "lookup rt' parts = Some y" ..
  from build_loop_skip_existing [OF Some this] show ?thesis .
qed

text \<open>
  Claim C10. During the construction, a path whose segments all name existing nodes (its last
  segment names an existing child of the directory that the segments before it lead to) is
  skipped: the insertion returns the tree as it is, without a panic. The insertion of a path
  panics exactly when a proper prefix of its segments leads to a file, that is when a file
  stands where a directory is needed, and the panic is the one of \<open>addChild\<close>. For the input
  list this means: a path that occurs earlier in the list, or that is a directory of an
  earlier path, changes nothing, not even whether the construction fails.
\<close>

theorem existing_path_skipped:
  assumes "isDir cur"
  shows "(parts \<noteq> [] \<and> lookup cur parts \<noteq> None \<longrightarrow> insertParts cur parts = Inr cur) \<and>
         ((\<exists>e. insertParts cur parts = Inl e) \<longleftrightarrow>
            (\<exists>ps qs f. parts = ps @ qs \<and> ps \<noteq> [] \<and> qs \<noteq> [] \<and>
                lookup cur ps = Some f \<and> \<not> isDir f)) \<and>
         (\<forall>e. insertParts cur parts = Inl e \<longrightarrow> e = PanicAddChildOnFile) \<and>
         (full \<in> set before \<or> (\<exists>below. full @ ''/'' @ below \<in> set before) \<longrightarrow>
            buildTree startRelSlash (before @ full # after) =
            buildTree startRelSlash (before @ after))"
proof (intro conjI impI allI)
  assume "parts \<noteq> [] \<and> lookup cur parts \<noteq> None"
  then show "insertParts cur parts = Inr cur" by (auto intro: insertParts_existing)
next
  have "blocked cur parts \<longleftrightarrow>
          (\<exists>ps qs f. parts = ps @ qs \<and> ps \<noteq> [] \<and> qs \<noteq> [] \<and>
              lookup cur ps = Some f \<and> \<not> isDir f)"
    unfolding blocked_def using assms by (metis lookup.simps(1) option.inject)
  then show "(\<exists>e. insertParts cur parts = Inl e) \<longleftrightarrow>
          (\<exists>ps qs f. parts = ps @ qs \<and> ps \<noteq> [] \<and> qs \<noteq> [] \<and>
              lookup cur ps = Some f \<and> \<not> isDir f)"
    by (simp add: insertParts_panics_iff)
next
  fix e assume "insertParts cur parts = Inl e"
  then show "e = PanicAddChildOnFile" by (rule insertParts_panic_value)
next
  assume known: "full \<in> set before \<or> (\<exists>below. full @ ''/'' @ below \<in> set before)"
  have "build_loop startRelSlash rt (before @ full # after) =
        build_loop startRelSlash rt (before @ after)" for rt
  proof (cases "build_loop startRelSlash rt before")
    case (Inl e)
    then show ?thesis by (simp add: build_loop_append)
  next
    case (Inr rt')
    from build_loop_skip_known [OF Inr known] Inr show ?thesis
      by (simp add: build_loop_append)
  qed
  then show "buildTree startRelSlash (before @ full # after) =
             buildTree startRelSlash (before @ after)"
    by (simp add: buildTree_def)
qed

theorem existing_path_skipped_witness:
  "insertParts
     (Node ''.'' ''.'' True [Node ''a'' ''a'' True [Node ''b'' ''a/b'' False [] 2 False False] 1 False False] 0 False False)
     [''a''] =
   Inr (Node ''.'' ''.'' True [Node ''a'' ''a'' True [Node ''b'' ''a/b'' False [] 2 False False] 1 False False] 0 False False) \<and>
   insertParts
     (Node ''.'' ''.'' True [Node ''a'' ''a'' True [Node ''b'' ''a/b'' False [] 2 False False] 1 False False] 0 False False)
     [''a'', ''b'', ''c''] = Inl PanicAddChildOnFile \<and>
   buildTree ''.'' ([''a/b''] @ ''a'' # [''a/b'']) = buildTree ''.'' ([''a/b''] @ [''a/b''])"
proof -
  let ?b = "Node ''b'' ''a/b'' False [] 2 False False"
  let ?t = "Node ''.'' ''.'' True [Node ''a'' ''a'' True [?b] 1 False False] 0 False False"
  have d: "isDir ?t" by simp
  have l: "[''a''] \<noteq> [] \<and> lookup ?t [''a''] \<noteq> None" by (simp add: child_def)
  have k: "\<exists>ps qs f. [''a'', ''b'', ''c''] = ps @ qs \<and> ps \<noteq> [] \<and> qs \<noteq> [] \<and>
      lookup ?t ps = Some f \<and> \<not> isDir f"
  proof (intro exI conjI)
    show "[''a'', ''b'', ''c''] = [''a'', ''b''] @ [''c'']" by simp
    show "lookup ?t [''a'', ''b''] = Some ?b" by (simp add: child_def)
  qed simp_all
  have m: "''a'' \<in> set [''a/b''] \<or> (\<exists>below. ''a'' @ ''/'' @ below \<in> set [''a/b''])"
    by (rule disjI2, rule exI [of _ "''b''"]) simp
  from existing_path_skipped [OF d, of "[''a'']"] l
  have 1: "insertParts ?t [''a''] = Inr ?t" by blast
  from existing_path_skipped [OF d, of "[''a'', ''b'', ''c'']"] k
  have 2: "insertParts ?t [''a'', ''b'', ''c''] = Inl PanicAddChildOnFile" by blast
  from existing_path_skipped [OF d, of _ "''a''" "[''a/b'']" "''.''" "[''a/b'']"] m
  have 3: "buildTree ''.'' ([''a/b''] @ ''a'' # [''a/b'']) = buildTree ''.'' ([''a/b''] @ [''a/b''])"
    by blast
  from 1 2 3 show ?thesis by simp
qed

section \<open>Depth and path segments\<close>

lemma length_names_along:
  "node_at t p = Some n \<Longrightarrow> length (names_along t p) = length p"
  by (induction p arbitrary: t) (auto split: if_splits)

lemma lookup_position:
  "lookup t ps = Some n \<Longrightarrow> \<exists>p. node_at t p = Some n \<and> names_along t p = ps"
proof (induction ps arbitrary: t)
  case Nil
  then have "node_at t [] = Some n \<and> names_along t [] = []" by simp
  then show ?case by blast
next
  case (Cons part rest)
  from Cons.prems obtain i c where ch: "child t part = Some (i, c)" and lk: "lookup c rest = Some n"
    by (auto split: option.splits)
  from child_Some [OF ch] have i: "i < length (children t)" and c: "c = children t ! i"
    and nm: "name c = part" by auto
  from Cons.IH [OF lk] obtain p where "node_at c p = Some n" "names_along c p = rest" by blast
  with i c nm have "node_at t (i # p) = Some n \<and> names_along t (i # p) = part # rest" by simp
  then show ?case by blast
qed

lemma finalizeTree_position:
  "wf_tree t \<Longrightarrow> node_at t p = Some n \<Longrightarrow>
     \<exists>p'. node_at (finalizeTree t) p' = Some (finalizeTree n) \<and>
          names_along (finalizeTree t) p' = names_along t p"
proof (induction p arbitrary: t)
  case Nil
  then have "node_at (finalizeTree t) [] = Some (finalizeTree n) \<and>
      names_along (finalizeTree t) [] = names_along t []" by simp
  then show ?case by blast
next
  case (Cons i q)
  from Cons.prems(2) have i: "i < length (children t)"
    and at: "node_at (children t ! i) q = Some n" by (auto split: if_splits)
  let ?c = "children t ! i"
  let ?cs = "sort_Slice node_less (children t)"
  from Cons.prems(1) i have dir: "isDir t" and wc: "wf_tree ?c"
    by (auto simp: wf_tree_sel [of t])
  from i have "?c \<in> set ?cs" by (simp add: set_sort_Slice)
  then obtain j where j: "j < length ?cs" and cj: "?cs ! j = ?c"
    by (auto simp: in_set_conv_nth)
  from Cons.IH [OF wc at] obtain p' where p': "node_at (finalizeTree ?c) p' = Some (finalizeTree n)"
    and nm: "names_along (finalizeTree ?c) p' = names_along ?c q" by blast
  have ch: "children (finalizeTree t) = map finalizeTree ?cs"
    using dir by (rule finalizeTree_children)
  from j cj p' nm i
  have "node_at (finalizeTree t) (j # p') = Some (finalizeTree n) \<and>
        names_along (finalizeTree t) (j # p') = names_along t (i # q)"
    by (simp add: ch finalizeTree_fields)
  then show ?case by blast
qed

lemma finalizeTree_position_back:
  "wf_tree t \<Longrightarrow> node_at (finalizeTree t) p' = Some n' \<Longrightarrow>
     \<exists>p n. node_at t p = Some n \<and> names_along t p = names_along (finalizeTree t) p' \<and>
           (p = [] \<longleftrightarrow> p' = [])"
proof (induction p' arbitrary: t n')
  case Nil
  have "node_at t [] = Some t \<and> names_along t [] = names_along (finalizeTree t) [] \<and>
      ([] = [] \<longleftrightarrow> ([]::nat list) = [])" by simp
  then show ?case by blast
next
  case (Cons j q')
  show ?case
  proof (cases "isDir t")
    case False
    then have "finalizeTree t = t" by (rule finalizeTree_file)
    with Cons.prems(2) have "node_at t (j # q') = Some n' \<and>
        names_along t (j # q') = names_along (finalizeTree t) (j # q') \<and>
        (j # q' = [] \<longleftrightarrow> j # q' = [])" by simp
    then show ?thesis by blast
  next
    case True
    let ?cs = "sort_Slice node_less (children t)"
    have ch: "children (finalizeTree t) = map finalizeTree ?cs"
      using True by (rule finalizeTree_children)
    from Cons.prems(2) have j: "j < length ?cs"
      and at: "node_at (finalizeTree (?cs ! j)) q' = Some n'"
      by (auto simp: ch split: if_splits)
    from j have "?cs ! j \<in> set ?cs" by simp
    then have "?cs ! j \<in> set (children t)" by (simp add: set_sort_Slice)
    then obtain i where i: "i < length (children t)" and ci: "children t ! i = ?cs ! j"
      by (auto simp: in_set_conv_nth)
    from Cons.prems(1) i have "wf_tree (children t ! i)" by (auto simp: wf_tree_sel [of t])
    with ci have wc: "wf_tree (?cs ! j)" by simp
    from Cons.IH [OF wc at] obtain p n where "node_at (?cs ! j) p = Some n"
      and "names_along (?cs ! j) p = names_along (finalizeTree (?cs ! j)) q'" by blast
    with i ci j
    have "node_at t (i # p) = Some n \<and>
          names_along t (i # p) = names_along (finalizeTree t) (j # q') \<and>
          (i # p = [] \<longleftrightarrow> j # q' = [])"
      by (simp add: ch finalizeTree_fields)
    then show ?thesis by blast
  qed
qed

lemma insertParts_single:
  assumes "insertParts cur [part] = Inr cur'"
  shows "cur' = cur \<or>
         (isDir cur \<and>
          cur' = set_children (children cur @
                   [newFile (Some cur) part (filepath_Join (relBase cur) (filepath_FromSlash part))]) cur)"
  using assms by (auto simp: addChild_def Let_def split: option.splits if_splits)

lemma insertParts_positions:
  "insertParts cur parts = Inr cur' \<Longrightarrow> node_at cur' p = Some n \<Longrightarrow>
     ((\<exists>n0. node_at cur p = Some n0) \<and> names_along cur' p = names_along cur p) \<or>
     (p \<noteq> [] \<and> (\<exists>qs. parts = names_along cur' p @ qs))"
proof (induction parts arbitrary: cur cur' p n)
  case Nil
  then show ?case by simp
next
  case (Cons part rest)
  note ins = Cons.prems(1) and at = Cons.prems(2)
  show ?case
  proof (cases p)
    case Nil
    then show ?thesis by simp
  next
    case (Cons j q)
    show ?thesis
    proof (cases rest)
      case Nil
      from insertParts_single [OF ins [unfolded Nil]] show ?thesis
      proof
        assume "cur' = cur"
        with at show ?thesis by simp
      next
        let ?f = "newFile (Some cur) part (filepath_Join (relBase cur) (filepath_FromSlash part))"
        assume "isDir cur \<and> cur' = set_children (children cur @ [?f]) cur"
        then have cur': "cur' = set_children (children cur @ [?f]) cur" by simp
        show ?thesis
        proof (cases "j < length (children cur)")
          case True
          with at cur' Cons show ?thesis by (simp add: nth_append)
        next
          case False
          with at cur' Cons have j: "j = length (children cur)" and "node_at ?f q = Some n"
            by (auto simp: nth_append split: if_splits)
          then have "q = []" by (cases q) (simp_all add: newFile_def)
          with j cur' Cons Nil have "names_along cur' p = [part]"
            by (simp add: newFile_def)
          with Cons Nil show ?thesis by simp
        qed
      qed
    next
      case (Cons v va)
      then have rest: "rest \<noteq> []" by simp
      from insertParts_result [OF ins] rest
      consider (upd) i c c' where "child cur part = Some (i, c)" "insertParts c rest = Inr c'"
          "cur' = set_children ((children cur)[i := c']) cur"
        | (new) d d' where "name d = part" "children d = []" "insertParts d rest = Inr d'"
          "cur' = set_children (children cur @ [d']) cur"
        by blast
      then show ?thesis
      proof cases
        case upd
        from child_Some [OF upd(1)] have i: "i < length (children cur)"
          and c: "c = children cur ! i" and nm: "name c = part" by auto
        from insertParts_name [OF upd(2)] have nm': "name c' = name c" by simp
        from at \<open>p = j # q\<close> upd(3) have j: "j < length (children cur)"
          by (auto split: if_splits)
        show ?thesis
        proof (cases "j = i")
          case False
          with at \<open>p = j # q\<close> upd(3) j show ?thesis by simp
        next
          case True
          with at \<open>p = j # q\<close> upd(3) i have atc: "node_at c' q = Some n" by simp
          from Cons.IH [OF upd(2) atc]
          show ?thesis
          proof
            assume "(\<exists>n0. node_at c q = Some n0) \<and> names_along c' q = names_along c q"
            with True i c nm' \<open>p = j # q\<close> upd(3) show ?thesis by simp
          next
            assume "q \<noteq> [] \<and> (\<exists>qs. rest = names_along c' q @ qs)"
            with True i c nm nm' \<open>p = j # q\<close> upd(3) show ?thesis by simp
          qed
        qed
      next
        case new
        from insertParts_name [OF new(3)] new(1) have nm': "name d' = part" by simp
        show ?thesis
        proof (cases "j < length (children cur)")
          case True
          with at \<open>p = j # q\<close> new(4) show ?thesis by (simp add: nth_append)
        next
          case False
          with at \<open>p = j # q\<close> new(4) have j: "j = length (children cur)"
            and atd: "node_at d' q = Some n"
            by (auto simp: nth_append split: if_splits)
          from Cons.IH [OF new(3) atd]
          have "\<exists>qs. rest = names_along d' q @ qs"
          proof
            assume a: "(\<exists>n0. node_at d q = Some n0) \<and> names_along d' q = names_along d q"
            with new(2) have "q = []" by (cases q) simp_all
            then show ?thesis by simp
          next
            assume "q \<noteq> [] \<and> (\<exists>qs. rest = names_along d' q @ qs)"
            then show ?thesis by simp
          qed
          with j nm' \<open>p = j # q\<close> new(4) show ?thesis by simp
        qed
      qed
    qed
  qed
qed

lemma covered_insertParts:
  assumes "covered F cur" and "insertParts cur parts = Inr cur'"
  shows "covered (insert parts F) cur'"
  unfolding covered_def
proof (intro allI impI)
  fix p n assume a: "node_at cur' p = Some n \<and> p \<noteq> []"
  then have at: "node_at cur' p = Some n" by simp
  from insertParts_positions [OF assms(2) at]
  show "\<exists>ps \<in> insert parts F. \<exists>qs. ps = names_along cur' p @ qs"
  proof
    assume "(\<exists>n0. node_at cur p = Some n0) \<and> names_along cur' p = names_along cur p"
    with assms(1) a show ?thesis unfolding covered_def by auto
  next
    assume "p \<noteq> [] \<and> (\<exists>qs. parts = names_along cur' p @ qs)"
    then show ?thesis by auto
  qed
qed

lemma covered_mono: "covered F t \<Longrightarrow> F \<subseteq> G \<Longrightarrow> covered G t"
  unfolding covered_def by blast

lemma covered_build_loop:
  "covered F rt \<Longrightarrow> build_loop s rt files = Inr rt' \<Longrightarrow>
     covered (F \<union> {parts. \<exists>full \<in> set files. parts_of s full = Some parts}) rt'"
proof (induction files arbitrary: rt F)
  case Nil
  then show ?case by simp
next
  case (Cons full files)
  show ?case
  proof (cases "parts_of s full")
    case None
    with Cons.prems have "build_loop s rt files = Inr rt'" by (simp add: build_loop_Cons)
    from Cons.IH [OF Cons.prems(1) this] show ?thesis
      by (rule covered_mono) auto
  next
    case (Some parts)
    with Cons.prems(2) obtain rt1 where ins: "insertParts rt parts = Inr rt1"
      and bl: "build_loop s rt1 files = Inr rt'"
      by (auto simp: build_loop_Cons split: sum.splits)
    from covered_insertParts [OF Cons.prems(1) ins] have "covered (insert parts F) rt1" .
    from Cons.IH [OF this bl] show ?thesis
      by (rule covered_mono) (use Some in auto)
  qed
qed

lemma covered_root: "covered {} (newDir parent nm rel)"
  unfolding covered_def
proof (intro allI impI)
  fix p n assume "node_at (newDir parent nm rel) p = Some n \<and> p \<noteq> []"
  then have False by (cases p) (simp_all add: newDir_def)
  then show "\<exists>parts \<in> {}. \<exists>qs. parts = names_along (newDir parent nm rel) p @ qs" ..
qed

text \<open>
  The segments are those of the input path, cut at every separator: an empty segment
  counts. The field \<open>relBase\<close> is a cleaned path and can have fewer segments: for \<open>a//b\<close>
  the file \<open>b\<close> has three segments above it and depth 3, and its \<open>relBase\<close> is \<open>a/b\<close>.
\<close>

lemma empty_segment_depth:
  "buildTree ''.'' [''a//b''] =
     Inr (Node ''.'' ''.'' True
            [Node ''a'' ''a'' True
               [Node [] ''a'' True [Node ''b'' ''a/b'' False [] 3 False False] 2 True False]
               1 True False]
            0 True False)"
  by code_simp

text \<open>
  Claim C5 as it is stated fails in its second half: the depth of a node is not the number
  of segments of its path minus one. The file \<open>a.go\<close> directly under the start directory
  \<open>.\<close> has a path of one segment and depth 1, since the root has depth 0.
\<close>

theorem depth_segments_counterexample:
  "buildTree ''.'' [''a.go''] =
     Inr (Node ''.'' ''.'' True [Node ''a.go'' ''a.go'' False [] 1 False False] 0 True False) \<and>
   int (length (strings_Split ''a.go'')) - 1 \<noteq> 1"
  by code_simp

text \<open>
  Claim C5, amended. In every tree that \<open>buildTree\<close> returns, the children of every
  directory are ordered with all directories before all files, each group in ascending order
  of the names, and a file has no children. The depth of a node is the number of segments of
  its path below the start directory: the root has depth 0 and every child the depth of its
  parent plus one; the node at position \<open>p\<close> has depth \<open>length p\<close>, the names on the way to it
  are \<open>length p\<close> segments, and they are the leading segments of an input path below the
  start directory; and for every input path, its first \<open>j\<close> segments below the start
  directory lead to a node of depth \<open>j\<close>.
\<close>

theorem buildTree_sorted_and_depth:
  assumes "buildTree startRelSlash files = Inr t"
  shows "(node_at t p = Some n \<longrightarrow>
            depth n = int (length p) \<and>
            length (names_along t p) = length p \<and>
            (\<forall>c \<in> set (children n). depth c = depth n + 1) \<and>
            (isDir n \<longrightarrow> dirs_first_alphabetical (children n)) \<and>
            (\<not> isDir n \<longrightarrow> children n = []) \<and>
            (p \<noteq> [] \<longrightarrow>
               (\<exists>full \<in> set files. \<exists>parts qs.
                  parts_of startRelSlash full = Some parts \<and> parts = names_along t p @ qs))) \<and>
         (full \<in> set files \<and> parts_of startRelSlash full = Some (ps @ qs) \<longrightarrow>
            (\<exists>p n. node_at t p = Some n \<and> names_along t p = ps \<and>
                   depth n = int (length ps)))"
proof -
  let ?rt = "newDir None startRelSlash (filepath_FromSlash startRelSlash)"
  from assms obtain rt' where bl: "build_loop startRelSlash ?rt files = Inr rt'"
    and t: "t = finalizeTree rt'"
    by (auto simp: buildTree_def Let_def split: sum.splits)
  from build_loop_wf [OF wf_tree_new(1) bl] have wrt: "wf_tree rt'" by simp
  from buildTree_wf_ordered [OF assms]
  have w: "wf_tree t" and o: "ordered_tree t" and d: "depth t = 0" by auto
  have dep: "depth n = int (length p) \<and> wf_tree n" if "node_at t p = Some n" for p n
    using node_at_wf [OF w that] d by simp
  have first: "depth n = int (length p) \<and>
            length (names_along t p) = length p \<and>
            (\<forall>c \<in> set (children n). depth c = depth n + 1) \<and>
            (isDir n \<longrightarrow> dirs_first_alphabetical (children n)) \<and>
            (\<not> isDir n \<longrightarrow> children n = []) \<and>
            (p \<noteq> [] \<longrightarrow>
               (\<exists>full \<in> set files. \<exists>parts qs.
                  parts_of startRelSlash full = Some parts \<and> parts = names_along t p @ qs))"
    if at: "node_at t p = Some n"
  proof -
    from dep [OF at] have dn: "depth n = int (length p)" and wn: "wf_tree n" by simp_all
    from node_at_ordered [OF o at] have on: "ordered_tree n" .
    have cov: "\<exists>full \<in> set files. \<exists>parts qs.
        parts_of startRelSlash full = Some parts \<and> parts = names_along t p @ qs" if ne: "p \<noteq> []"
    proof -
      from finalizeTree_position_back [OF wrt at [unfolded t]] ne
      obtain p0 n0 where at0: "node_at rt' p0 = Some n0"
        and nm: "names_along rt' p0 = names_along t p" and ne0: "p0 \<noteq> []"
        unfolding t by blast
      from covered_build_loop [OF covered_root bl]
      have "covered {parts. \<exists>full \<in> set files. parts_of startRelSlash full = Some parts} rt'"
        by simp
      with at0 ne0 obtain parts qs where
        "parts \<in> {parts. \<exists>full \<in> set files. parts_of startRelSlash full = Some parts}"
        and "parts = names_along rt' p0 @ qs"
        unfolding covered_def by blast
      with nm show ?thesis by auto
    qed
    from dn wn on cov length_names_along [OF at] show ?thesis
      by (auto simp: wf_tree_sel [of n] ordered_tree_sel [of n])
  qed
  have second: "\<exists>p n. node_at t p = Some n \<and> names_along t p = ps \<and> depth n = int (length ps)"
    if mem: "full \<in> set files" and po: "parts_of startRelSlash full = Some (ps @ qs)"
  proof -
    from build_loop_lookup_done [OF bl mem po] obtain y where "lookup rt' (ps @ qs) = Some y" ..
    from lookup_prefix [OF this] obtain z where "lookup rt' ps = Some z" ..
    from lookup_position [OF this] obtain p0 where at0: "node_at rt' p0 = Some z"
      and nm0: "names_along rt' p0 = ps" by blast
    from finalizeTree_position [OF wrt at0] obtain p' where at': "node_at t p' = Some (finalizeTree z)"
      and nm': "names_along t p' = ps"
      unfolding t nm0 by blast
    from dep [OF at'] length_names_along [OF at'] nm'
    have "depth (finalizeTree z) = int (length ps)" by simp
    with at' nm' show ?thesis by blast
  qed
  from first second show ?thesis by blast
qed

theorem buildTree_sorted_and_depth_witness:
  "buildTree ''.'' [''b.go'', ''dir/b.md'', ''a.go'', ''dir/sub/x''] =
     Inr (Node ''.'' ''.'' True
            [Node ''dir'' ''dir'' True
               [Node ''sub'' ''dir/sub'' True
                  [Node ''x'' ''dir/sub/x'' False [] 3 False False] 2 True False,
                Node ''b.md'' ''dir/b.md'' False [] 2 False False]
               1 True False,
             Node ''a.go'' ''a.go'' False [] 1 False False,
             Node ''b.go'' ''b.go'' False [] 1 False False]
            0 True False) \<and>
   node_at
     (Node ''.'' ''.'' True
            [Node ''dir'' ''dir'' True
               [Node ''sub'' ''dir/sub'' True
                  [Node ''x'' ''dir/sub/x'' False [] 3 False False] 2 True False,
                Node ''b.md'' ''dir/b.md'' False [] 2 False False]
               1 True False,
             Node ''a.go'' ''a.go'' False [] 1 False False,
             Node ''b.go'' ''b.go'' False [] 1 False False]
            0 True False) [0, 0] =
     Some (Node ''sub'' ''dir/sub'' True
             [Node ''x'' ''dir/sub/x'' False [] 3 False False] 2 True False) \<and>
   names_along
     (Node ''.'' ''.'' True
            [Node ''dir'' ''dir'' True
               [Node ''sub'' ''dir/sub'' True
                  [Node ''x'' ''dir/sub/x'' False [] 3 False False] 2 True False,
                Node ''b.md'' ''dir/b.md'' False [] 2 False False]
               1 True False,
             Node ''a.go'' ''a.go'' False [] 1 False False,
             Node ''b.go'' ''b.go'' False [] 1 False False]
            0 True False) [0, 0] = [''dir'', ''sub''] \<and>
   depth (Node ''sub'' ''dir/sub'' True
             [Node ''x'' ''dir/sub/x'' False [] 3 False False] 2 True False) = int (length [0, 0 :: nat]) \<and>
   (\<exists>full \<in> set [''b.go'', ''dir/b.md'', ''a.go'', ''dir/sub/x'']. \<exists>parts qs.
      parts_of ''.'' full = Some parts \<and> parts = [''dir'', ''sub''] @ qs) \<and>
   dirs_first_alphabetical
     [Node ''sub'' ''dir/sub'' True [Node ''x'' ''dir/sub/x'' False [] 3 False False] 2 True False,
      Node ''b.md'' ''dir/b.md'' False [] 2 False False] \<and>
   parts_of ''.'' ''dir/sub/x'' = Some ([''dir'', ''sub''] @ [''x'']) \<and>
   (\<exists>p n. node_at
            (Node ''.'' ''.'' True
               [Node ''dir'' ''dir'' True
                  [Node ''sub'' ''dir/sub'' True
                     [Node ''x'' ''dir/sub/x'' False [] 3 False False] 2 True False,
                   Node ''b.md'' ''dir/b.md'' False [] 2 False False]
                  1 True False,
                Node ''a.go'' ''a.go'' False [] 1 False False,
                Node ''b.go'' ''b.go'' False [] 1 False False]
               0 True False) p = Some n \<and>
          names_along
            (Node ''.'' ''.'' True
               [Node ''dir'' ''dir'' True
                  [Node ''sub'' ''dir/sub'' True
                     [Node ''x'' ''dir/sub/x'' False [] 3 False False] 2 True False,
                   Node ''b.md'' ''dir/b.md'' False [] 2 False False]
                  1 True False,
                Node ''a.go'' ''a.go'' False [] 1 False False,
                Node ''b.go'' ''b.go'' False [] 1 False False]
               0 True False) p = [''dir'', ''sub''] \<and>
          depth n = 2)"
proof -
  let ?sub = "Node ''sub'' ''dir/sub'' True [Node ''x'' ''dir/sub/x'' False [] 3 False False] 2 True False"
  let ?bmd = "Node ''b.md'' ''dir/b.md'' False [] 2 False False"
  let ?dir = "Node ''dir'' ''dir'' True [?sub, ?bmd] 1 True False"
  let ?t = "Node ''.'' ''.'' True
              [?dir, Node ''a.go'' ''a.go'' False [] 1 False False,
               Node ''b.go'' ''b.go'' False [] 1 False False] 0 True False"
  let ?files = "[''b.go'', ''dir/b.md'', ''a.go'', ''dir/sub/x'']"
  have b: "buildTree ''.'' ?files = Inr ?t"
    by code_simp
  have n: "node_at ?t [0] = Some ?dir" by simp
  have n2: "node_at ?t [0, 0] = Some ?sub" by simp
  have na: "names_along ?t [0, 0] = [''dir'', ''sub'']" by simp
  have po: "parts_of ''.'' ''dir/sub/x'' = Some ([''dir'', ''sub''] @ [''x''])" by code_simp
  have mem: "''dir/sub/x'' \<in> set ?files" by simp
  note inst = buildTree_sorted_and_depth [OF b, of "[0]" ?dir "''dir/sub/x''" "[''dir'', ''sub'']" "[''x'']"]
  note inst2 = buildTree_sorted_and_depth [OF b, of "[0, 0]" ?sub "''dir/sub/x''" "[''dir'', ''sub'']" "[''x'']"]
  from inst n have 1: "dirs_first_alphabetical [?sub, ?bmd]" by simp
  from inst2 n2 have 4: "depth ?sub = int (length [0, 0 :: nat])" by blast
  from inst2 n2 have "\<exists>full \<in> set ?files. \<exists>parts qs.
      parts_of ''.'' full = Some parts \<and> parts = names_along ?t [0, 0] @ qs" by blast
  then have 5: "\<exists>full \<in> set ?files. \<exists>parts qs.
      parts_of ''.'' full = Some parts \<and> parts = [''dir'', ''sub''] @ qs"
    unfolding na .
  from inst mem po have 2: "\<exists>p n. node_at ?t p = Some n \<and> names_along ?t p = [''dir'', ''sub''] \<and>
      depth n = int (length [''dir'', ''sub''])" by blast
  then have 3: "\<exists>p n. node_at ?t p = Some n \<and> names_along ?t p = [''dir'', ''sub''] \<and> depth n = 2"
    by simp
  from b n2 na 4 5 1 po 3 show ?thesis by blast
qed

section \<open>Properties of the session state\<close>

lemma flattenVisible_sel:
  "flattenVisible n = [] # (if isDir n \<and> expanded n then walk_children 0 (children n) else [])"
  by (cases n) simp

lemma flattenVisible_not_Nil: "flattenVisible n \<noteq> []"
  by (simp add: flattenVisible_sel)

lemma walk_children_valid:
  "(\<And>c. c \<in> set cs \<Longrightarrow> \<forall>p \<in> set (flattenVisible c). node_at c p \<noteq> None) \<Longrightarrow>
   q \<in> set (walk_children k cs) \<Longrightarrow>
   \<exists>i p. q = (k + i) # p \<and> i < length cs \<and> node_at (cs ! i) p \<noteq> None"
proof (induction cs arbitrary: k)
  case Nil
  then show ?case by simp
next
  case (Cons c cs)
  from Cons.prems(2) consider (here) p where "q = k # p" "p \<in> set (flattenVisible c)"
    | (later) "q \<in> set (walk_children (Suc k) cs)"
    by auto
  then show ?case
  proof cases
    case here
    with Cons.prems(1) [of c] have "node_at c p \<noteq> None" by simp
    with here show ?thesis by (intro exI [of _ 0] exI [of _ p]) simp
  next
    case later
    from Cons.IH [OF _ later] Cons.prems(1)
    obtain i p where "q = (Suc k + i) # p" "i < length cs" "node_at (cs ! i) p \<noteq> None"
      by auto
    then show ?thesis by (intro exI [of _ "Suc i"] exI [of _ p]) simp
  qed
qed

lemma flattenVisible_valid:
  "p \<in> set (flattenVisible n) \<Longrightarrow> node_at n p \<noteq> None"
proof (induction n arbitrary: p)
  case (Node nm rel d cs dp ex sel)
  show ?case
  proof (cases p)
    case Nil
    then show ?thesis by simp
  next
    case (Cons i p')
    with Node.prems have de: "d \<and> ex" and q: "i # p' \<in> set (walk_children 0 cs)"
      by (auto split: if_splits)
    from walk_children_valid [of cs "i # p'" 0, OF _ q] Node.IH
    have "i < length cs \<and> node_at (cs ! i) p' \<noteq> None" by auto
    with Cons show ?thesis by simp
  qed
qed

lemma ensureCursorVisible_inv:
  assumes "vis m \<noteq> []"
  shows "vis (ensureCursorVisible m) = vis m \<and> root_m (ensureCursorVisible m) = root_m m \<and>
         height (ensureCursorVisible m) = height m \<and>
         0 \<le> cursor (ensureCursorVisible m) \<and>
         cursor (ensureCursorVisible m) < int (length (vis m)) \<and>
         offset (ensureCursorVisible m) \<le> cursor (ensureCursorVisible m) \<and>
         cursor (ensureCursorVisible m) < offset (ensureCursorVisible m) + viewportHeight m \<and>
         0 \<le> offset (ensureCursorVisible m) \<and>
         offset (ensureCursorVisible m) \<le> max 0 (int (length (vis m)) - viewportHeight m) \<and>
         (0 \<le> cursor m \<and> cursor m < int (length (vis m)) \<longrightarrow>
            cursor (ensureCursorVisible m) = cursor m)"
proof -
  from assms have len: "0 < int (length (vis m))" by simp
  define vh where "vh = viewportHeight m"
  have vh: "1 \<le> vh" by (simp add: vh_def viewportHeight_def Let_def)
  define m1 where "m1 = (if cursor m < 0 then m\<lparr>cursor := 0\<rparr> else m)"
  define m2 where "m2 = (if cursor m1 \<ge> int (length (vis m1))
                then (let k = m1\<lparr>cursor := int (length (vis m1)) - 1\<rparr>
                      in if cursor k < 0 then k\<lparr>cursor := 0\<rparr> else k)
                else m1)"
  define m3 where "m3 = (if cursor m2 < offset m2 then m2\<lparr>offset := cursor m2\<rparr> else m2)"
  define m4 where "m4 = (if cursor m3 \<ge> offset m3 + vh then m3\<lparr>offset := cursor m3 - vh + 1\<rparr> else m3)"
  define mo where "mo = (if int (length (vis m4)) - vh < 0 then 0 else int (length (vis m4)) - vh)"
  define m5 where "m5 = (if offset m4 > mo then m4\<lparr>offset := mo\<rparr> else m4)"
  define m6 where "m6 = (if offset m5 < 0 then m5\<lparr>offset := 0\<rparr> else m5)"
  have eq: "ensureCursorVisible m = m6"
    unfolding ensureCursorVisible_def m6_def m5_def mo_def m4_def m3_def m2_def m1_def vh_def
    by (simp only: Let_def)
  have s1: "vis m1 = vis m \<and> root_m m1 = root_m m \<and> height m1 = height m \<and>
            offset m1 = offset m \<and> 0 \<le> cursor m1 \<and>
            (0 \<le> cursor m \<longrightarrow> cursor m1 = cursor m)"
    by (simp add: m1_def)
  have s2: "vis m2 = vis m \<and> root_m m2 = root_m m \<and> height m2 = height m \<and>
            offset m2 = offset m \<and> 0 \<le> cursor m2 \<and> cursor m2 < int (length (vis m)) \<and>
            (0 \<le> cursor m \<and> cursor m < int (length (vis m)) \<longrightarrow> cursor m2 = cursor m)"
    using s1 len by (simp add: m2_def Let_def)
  have s3: "vis m3 = vis m \<and> root_m m3 = root_m m \<and> height m3 = height m \<and>
            cursor m3 = cursor m2 \<and> offset m3 \<le> cursor m3"
    using s2 by (simp add: m3_def)
  have s4: "vis m4 = vis m \<and> root_m m4 = root_m m \<and> height m4 = height m \<and>
            cursor m4 = cursor m2 \<and> offset m4 \<le> cursor m4 \<and> cursor m4 < offset m4 + vh"
    using s3 vh by (simp add: m4_def)
  have mo: "mo = max 0 (int (length (vis m)) - vh)"
    using s4 by (simp add: mo_def max_def)
  have s5: "vis m5 = vis m \<and> root_m m5 = root_m m \<and> height m5 = height m \<and>
            cursor m5 = cursor m2 \<and> offset m5 \<le> cursor m5 \<and> cursor m5 < offset m5 + vh \<and>
            offset m5 \<le> mo"
  proof (cases "offset m4 > mo")
    case True
    then have "m5 = m4\<lparr>offset := mo\<rparr>" by (simp add: m5_def)
    moreover have "cursor m2 < mo + vh" using s2 vh mo by (simp add: max_def)
    ultimately show ?thesis using s4 True by simp
  next
    case False
    then have "m5 = m4" by (simp add: m5_def)
    with s4 False show ?thesis by simp
  qed
  have s6: "vis m6 = vis m \<and> root_m m6 = root_m m \<and> height m6 = height m \<and>
            cursor m6 = cursor m2 \<and> offset m6 \<le> cursor m6 \<and> cursor m6 < offset m6 + vh \<and>
            offset m6 \<le> mo \<and> 0 \<le> offset m6"
  proof (cases "offset m5 < 0")
    case True
    then have "m6 = m5\<lparr>offset := 0\<rparr>" by (simp add: m6_def)
    moreover have "0 \<le> mo" by (simp add: mo)
    ultimately show ?thesis using s5 s2 vh True by simp
  next
    case False
    then have "m6 = m5" by (simp add: m6_def)
    with s5 False show ?thesis by simp
  qed
  from s6 s2 show ?thesis unfolding eq mo vh_def by simp
qed

lemma viewportHeight_cong: "height m' = height m \<Longrightarrow> viewportHeight m' = viewportHeight m"
  by (simp add: viewportHeight_def)

lemma model_inv_ensureCursorVisible:
  assumes "vis m = flattenVisible (root_m m)"
  shows "model_inv (ensureCursorVisible m)"
proof -
  from assms have ne: "vis m \<noteq> []" by (simp add: flattenVisible_not_Nil)
  note e = ensureCursorVisible_inv [OF ne]
  from e have "viewportHeight (ensureCursorVisible m) = viewportHeight m"
    by (intro viewportHeight_cong) simp
  with e assms show ?thesis unfolding model_inv_def by simp
qed

lemma walk_children_update:
  "i < length cs \<Longrightarrow> flattenVisible c' = flattenVisible (cs ! i) \<Longrightarrow>
     walk_children k (cs[i := c']) = walk_children k cs"
proof (induction cs arbitrary: i k)
  case Nil
  then show ?case by simp
next
  case (Cons c cs)
  then show ?case by (cases i) simp_all
qed

lemma flattenVisible_update_at:
  assumes "\<And>n. isDir (f n) = isDir n \<and> expanded (f n) = expanded n \<and> children (f n) = children n"
  shows "flattenVisible (update_at f p t) = flattenVisible t"
proof (induction p arbitrary: t)
  case Nil
  show ?case using assms [of t] by (simp add: flattenVisible_sel [of "f t"] flattenVisible_sel [of t])
next
  case (Cons i p)
  show ?case
  proof (cases "i < length (children t)")
    case False
    then show ?thesis by simp
  next
    case True
    have "walk_children 0 ((children t)[i := update_at f p (children t ! i)]) =
          walk_children 0 (children t)"
      using True Cons.IH by (rule walk_children_update)
    with True show ?thesis
      by (simp add: flattenVisible_sel [of "set_children _ _"] flattenVisible_sel [of t])
  qed
qed

lemma current_node_inv:
  assumes "model_inv m"
  shows "\<exists>n. current_node m = Inr (vis m ! nat (cursor m), n) \<and>
             node_at (root_m m) (vis m ! nat (cursor m)) = Some n \<and>
             vis m ! nat (cursor m) \<in> set (flattenVisible (root_m m))"
proof -
  let ?p = "vis m ! nat (cursor m)"
  from assms have r: "0 \<le> cursor m" "cursor m < int (length (vis m))"
    and v: "vis m = flattenVisible (root_m m)"
    by (auto simp: model_inv_def)
  from r have "nat (cursor m) < length (vis m)" by simp
  then have "?p \<in> set (vis m)" by (rule nth_mem)
  with v have mem: "?p \<in> set (flattenVisible (root_m m))" by simp
  then obtain n where "node_at (root_m m) ?p = Some n"
    using flattenVisible_valid by blast
  with r mem show ?thesis by (simp add: current_node_def Let_def)
qed

lemma model_inv_set_expansion: "model_inv (set_expansion e p m)"
  unfolding set_expansion_def Let_def
  by (rule model_inv_ensureCursorVisible) simp

lemma model_inv_fields:
  assumes "model_inv m" and "vis m' = vis m" and "flattenVisible (root_m m') = flattenVisible (root_m m)"
    and "cursor m' = cursor m" and "offset m' = offset m" and "height m' = height m"
  shows "model_inv m'"
  using assms viewportHeight_cong [OF assms(6)] unfolding model_inv_def by auto

lemma Update_inv:
  assumes "model_inv m"
  shows "\<exists>m' c. Update m message = Inr (m', c) \<and> model_inv m'"
proof (cases message)
  case (WindowSizeMsg w h)
  have "model_inv (ensureCursorVisible (m\<lparr>width := w, height := h\<rparr>))"
    using assms by (intro model_inv_ensureCursorVisible) (simp add: model_inv_def)
  with WindowSizeMsg show ?thesis by (simp add: Update_def)
next
  case OtherMsg
  with assms show ?thesis by (simp add: Update_def)
next
  case (KeyMsg k)
  from assms have v: "vis m = flattenVisible (root_m m)" by (simp add: model_inv_def)
  from current_node_inv [OF assms] obtain n where cn: "current_node m = Inr (vis m ! nat (cursor m), n)"
    by blast
  let ?p = "vis m ! nat (cursor m)"
  have quit: "model_inv (m\<lparr>aborted := True\<rparr>)"
    by (rule model_inv_fields [OF assms]) simp_all
  have conf: "model_inv (m\<lparr>confirmed := True\<rparr>)"
    by (rule model_inv_fields [OF assms]) simp_all
  have up: "model_inv (ensureCursorVisible (if cursor m > 0 then m\<lparr>cursor := cursor m - 1\<rparr> else m))"
    by (rule model_inv_ensureCursorVisible) (simp add: v)
  have down: "model_inv (ensureCursorVisible
      (if cursor m < int (length (vis m)) - 1 then m\<lparr>cursor := cursor m + 1\<rparr> else m))"
    by (rule model_inv_ensureCursorVisible) (simp add: v)
  have tog: "model_inv (m\<lparr>root_m := update_at (set_selected s) ?p (root_m m), selectedCount := j\<rparr>)" for s j
    by (rule model_inv_fields [OF assms]) (simp_all add: flattenVisible_update_at)
  show ?thesis
  proof (cases "key_Matches k (QuitKey defaultKeyMap)")
    case True
    with KeyMsg quit show ?thesis by (simp add: Update_def)
  next
    case nq: False
    show ?thesis
    proof (cases "key_Matches k (Up defaultKeyMap)")
      case True
      with KeyMsg nq up show ?thesis by (simp add: Update_def)
    next
      case nu: False
      show ?thesis
      proof (cases "key_Matches k (Down defaultKeyMap)")
        case True
        with KeyMsg nq nu down show ?thesis by (simp add: Update_def)
      next
        case nd: False
        show ?thesis
        proof (cases "key_Matches k (Right defaultKeyMap)")
          case True
          with KeyMsg nq nu nd cn assms model_inv_set_expansion [of True ?p m]
          show ?thesis by (simp add: Update_def)
        next
          case nr: False
          show ?thesis
          proof (cases "key_Matches k (Left defaultKeyMap)")
            case True
            with KeyMsg nq nu nd nr cn assms model_inv_set_expansion [of False ?p m]
            show ?thesis by (simp add: Update_def)
          next
            case nl: False
            show ?thesis
            proof (cases "key_Matches k (Toggle defaultKeyMap)")
              case True
              with KeyMsg nq nu nd nr nl cn assms tog
              show ?thesis by (simp add: Update_def Let_def)
            next
              case nt: False
              with KeyMsg nq nu nd nr nl conf assms
              show ?thesis by (simp add: Update_def)
            qed
          qed
        qed
      qed
    qed
  qed
qed

lemma model_inv_newModel: "model_inv (newModel t b r a)"
proof -
  have "0 < length (flattenVisible t)" using flattenVisible_not_Nil [of t] by simp
  then show ?thesis
    by (simp add: model_inv_def newModel_def viewportHeight_def)
qed

lemma run_msgs_inv:
  "model_inv m \<Longrightarrow> \<exists>m'. run_msgs m msgs = Inr m' \<and> model_inv m'"
proof (induction msgs arbitrary: m)
  case Nil
  then show ?case by simp
next
  case (Cons x xs)
  from Update_inv [OF Cons.prems, of x] obtain m1 c where "Update m x = Inr (m1, c)"
    and "model_inv m1" by blast
  with Cons.IH [of m1] show ?case by simp
qed

text \<open>
  Claim C8. From the initial model of any tree, every sequence of key, resize and other
  messages is processed without a panic, and in the state it leads to the cursor lies in
  \<open>[offset, offset + viewportHeight)\<close> and the offset in
  \<open>[0, max 0 (length vis - viewportHeight)]\<close>.
\<close>

theorem cursor_within_viewport:
  "\<exists>m. run_msgs (newModel t b inR allowB) msgs = Inr m \<and>
       offset m \<le> cursor m \<and> cursor m < offset m + viewportHeight m \<and>
       0 \<le> offset m \<and> offset m \<le> max 0 (int (length (vis m)) - viewportHeight m)"
proof -
  from run_msgs_inv [OF model_inv_newModel, of t b inR allowB msgs]
  obtain m where "run_msgs (newModel t b inR allowB) msgs = Inr m" and "model_inv m" by blast
  then show ?thesis unfolding model_inv_def by blast
qed

theorem cursor_within_viewport_witness:
  "\<exists>m. run_msgs
          (newModel
             (Node ''.'' ''.'' True
                [Node ''a'' ''a'' True [Node ''b'' ''a/b'' False [] 2 False True] 1 True False,
                 Node ''c'' ''c'' False [] 1 False False] 0 True False)
             [] False False)
          [KeyMsg ''down'', KeyMsg ''down'', WindowSizeMsg 80 4, KeyMsg ''down'', KeyMsg ''up''] =
        Inr m \<and>
        cursor m = 2 \<and> offset m = 2 \<and> viewportHeight m = 2 \<and> length (vis m) = 4 \<and>
        offset m \<le> cursor m \<and> cursor m < offset m + viewportHeight m \<and>
        0 \<le> offset m \<and> offset m \<le> max 0 (int (length (vis m)) - viewportHeight m)"
proof -
  let ?t = "Node ''.'' ''.'' True
              [Node ''a'' ''a'' True [Node ''b'' ''a/b'' False [] 2 False True] 1 True False,
               Node ''c'' ''c'' False [] 1 False False] 0 True False"
  let ?msgs = "[KeyMsg ''down'', KeyMsg ''down'', WindowSizeMsg 80 4, KeyMsg ''down'', KeyMsg ''up'']"
  let ?m = "\<lparr>root_m = ?t, vis = [[], [0], [0, 0], [1]], cursor = 2, offset = 2, width = 80,
             height = 4, base = [], inRepo = False, allowBinary = False, selectedCount = 0,
             aborted = False, confirmed = False\<rparr>"
  have run: "run_msgs (newModel ?t [] False False) ?msgs = Inr ?m" by code_simp
  have v: "viewportHeight ?m = 2" by (simp add: viewportHeight_def)
  from cursor_within_viewport [of ?t "[]" False False ?msgs] run v
  show ?thesis by simp
qed

lemma set_walk_children:
  "(\<And>c. c \<in> set cs \<Longrightarrow> set (flattenVisible c) = {p. visible c p}) \<Longrightarrow>
   set (walk_children k cs) = {(k + i) # p | i p. i < length cs \<and> visible (cs ! i) p}"
proof (induction cs arbitrary: k)
  case Nil
  show ?case by simp
next
  case (Cons c cs)
  have ih: "set (walk_children (Suc k) cs) =
      {(Suc k + i) # p | i p. i < length cs \<and> visible (cs ! i) p}"
    by (rule Cons.IH) (simp add: Cons.prems)
  have c: "set (flattenVisible c) = {p. visible c p}" by (rule Cons.prems) simp
  show ?case
  proof (rule set_eqI)
    fix q
    show "q \<in> set (walk_children k (c # cs)) \<longleftrightarrow>
          q \<in> {(k + i) # p | i p. i < length (c # cs) \<and> visible ((c # cs) ! i) p}"
    proof
      assume "q \<in> set (walk_children k (c # cs))"
      then consider p where "q = k # p" "visible c p"
        | i p where "q = (Suc k + i) # p" "i < length cs" "visible (cs ! i) p"
        using ih c by auto
      then show "q \<in> {(k + i) # p | i p. i < length (c # cs) \<and> visible ((c # cs) ! i) p}"
      proof cases
        case 1
        then have "q = (k + 0) # p \<and> 0 < length (c # cs) \<and> visible ((c # cs) ! 0) p" by simp
        then show ?thesis by blast
      next
        case 2
        then have "q = (k + Suc i) # p \<and> Suc i < length (c # cs) \<and> visible ((c # cs) ! Suc i) p"
          by simp
        then show ?thesis by blast
      qed
    next
      assume "q \<in> {(k + i) # p | i p. i < length (c # cs) \<and> visible ((c # cs) ! i) p}"
      then obtain i p where q: "q = (k + i) # p" and i: "i < length (c # cs)"
        and v: "visible ((c # cs) ! i) p" by blast
      show "q \<in> set (walk_children k (c # cs))"
      proof (cases i)
        case 0
        with q v c show ?thesis by simp
      next
        case (Suc j)
        with q i v have "q = (Suc k + j) # p \<and> j < length cs \<and> visible (cs ! j) p" by simp
        then have "q \<in> set (walk_children (Suc k) cs)" unfolding ih by blast
        then show ?thesis by simp
      qed
    qed
  qed
qed

lemma set_flattenVisible: "set (flattenVisible n) = {p. visible n p}"
proof (induction n)
  case (Node nm rel d cs dp ex sel)
  have w: "set (walk_children 0 cs) = {(0 + i) # p | i p. i < length cs \<and> visible (cs ! i) p}"
    by (rule set_walk_children) (rule Node.IH)
  show ?case
  proof (rule set_eqI)
    fix q
    show "q \<in> set (flattenVisible (Node nm rel d cs dp ex sel)) \<longleftrightarrow>
          q \<in> {p. visible (Node nm rel d cs dp ex sel) p}"
      using w by (cases q) auto
  qed
qed

lemma visible_update_at: "visible (update_at f p t) p = visible t p"
proof (induction p arbitrary: t)
  case Nil
  show ?case by simp
next
  case (Cons i p)
  then show ?case by simp
qed

lemma node_at_update_at: "node_at (update_at f p t) p = map_option f (node_at t p)"
proof (induction p arbitrary: t)
  case Nil
  show ?case by simp
next
  case (Cons i p)
  then show ?case by simp
qed

lemma set_children_twice: "set_children cs (set_children cs' t) = set_children cs t"
  by (simp add: set_children_def)

lemma update_at_twice: "update_at f p (update_at g p t) = update_at (\<lambda>n. f (g n)) p t"
proof (induction p arbitrary: t)
  case Nil
  show ?case by simp
next
  case (Cons i p)
  then show ?case by (simp add: set_children_twice)
qed

lemma update_at_same: "node_at t p = Some n \<Longrightarrow> h n = n \<Longrightarrow> update_at h p t = t"
proof (induction p arbitrary: t)
  case Nil
  then show ?case by simp
next
  case (Cons i p)
  from Cons.prems(1) have i: "i < length (children t)"
    and at: "node_at (children t ! i) p = Some n"
    by (auto split: if_splits)
  from Cons.IH [OF at Cons.prems(2)] i show ?case
    by (simp add: set_children_same)
qed

lemma selected_update_at:
  assumes "\<And>n. selected (f n) = selected n \<and> children (f n) = children n"
  shows "map_option selected (node_at (update_at f p t) q) = map_option selected (node_at t q)"
proof (induction p arbitrary: t q)
  case Nil
  show ?case using assms [of t] by (cases q) simp_all
next
  case (Cons i p)
  show ?case
  proof (cases q)
    case Nil
    then show ?thesis by simp
  next
    case (Cons j q')
    with Cons.IH [of "children t ! i" q'] show ?thesis
      by (cases "j = i") simp_all
  qed
qed

lemma indexOf_from_mem:
  "p \<in> set ps \<Longrightarrow>
     i \<le> indexOf_from i ps p \<and> indexOf_from i ps p < i + int (length ps) \<and>
     ps ! nat (indexOf_from i ps p - i) = p"
proof (induction ps arbitrary: i)
  case Nil
  then show ?case by simp
next
  case (Cons x xs)
  show ?case
  proof (cases "x = p")
    case True
    then show ?thesis by simp
  next
    case False
    with Cons.prems have "p \<in> set xs" by simp
    from Cons.IH [OF this, of "i + 1"]
    have lo: "i + 1 \<le> indexOf_from (i + 1) xs p"
      and hi: "indexOf_from (i + 1) xs p < i + 1 + int (length xs)"
      and at: "xs ! nat (indexOf_from (i + 1) xs p - (i + 1)) = p"
      by simp_all
    from lo have "nat (indexOf_from (i + 1) xs p - i) = Suc (nat (indexOf_from (i + 1) xs p - (i + 1)))"
      by simp
    with lo hi at False show ?thesis by simp
  qed
qed

lemma indexOf_mem:
  "p \<in> set ps \<Longrightarrow>
     0 \<le> indexOf ps p \<and> indexOf ps p < int (length ps) \<and> ps ! nat (indexOf ps p) = p"
  using indexOf_from_mem [of p ps 0] by (simp add: indexOf_def)

lemma set_expansion_fields:
  assumes "p \<in> set (flattenVisible (update_at (set_expanded e) p (root_m m)))"
  shows "root_m (set_expansion e p m) = update_at (set_expanded e) p (root_m m) \<and>
         vis (set_expansion e p m) = flattenVisible (update_at (set_expanded e) p (root_m m)) \<and>
         0 \<le> cursor (set_expansion e p m) \<and>
         cursor (set_expansion e p m) < int (length (vis (set_expansion e p m))) \<and>
         vis (set_expansion e p m) ! nat (cursor (set_expansion e p m)) = p"
proof -
  let ?r = "update_at (set_expanded e) p (root_m m)"
  let ?m = "m\<lparr>root_m := ?r, vis := flattenVisible ?r, cursor := indexOf (flattenVisible ?r) p\<rparr>"
  have eq: "set_expansion e p m = ensureCursorVisible ?m"
    by (simp add: set_expansion_def Let_def)
  have ne: "vis ?m \<noteq> []" by (simp add: flattenVisible_not_Nil)
  note i = indexOf_mem [OF assms]
  from ensureCursorVisible_inv [OF ne] i show ?thesis unfolding eq by simp
qed

lemma current_node_at:
  "0 \<le> cursor m \<Longrightarrow> cursor m < int (length (vis m)) \<Longrightarrow> vis m ! nat (cursor m) = p \<Longrightarrow>
     node_at (root_m m) p = Some n \<Longrightarrow> current_node m = Inr (p, n)"
  by (simp add: current_node_def Let_def)

lemma keys_left:
  "\<not> key_Matches ''left'' (QuitKey defaultKeyMap)" "\<not> key_Matches ''left'' (Up defaultKeyMap)"
  "\<not> key_Matches ''left'' (Down defaultKeyMap)" "\<not> key_Matches ''left'' (Right defaultKeyMap)"
  "key_Matches ''left'' (Left defaultKeyMap)"
  by (simp_all add: key_Matches_def defaultKeyMap_def)

lemma keys_right:
  "\<not> key_Matches ''right'' (QuitKey defaultKeyMap)" "\<not> key_Matches ''right'' (Up defaultKeyMap)"
  "\<not> key_Matches ''right'' (Down defaultKeyMap)" "key_Matches ''right'' (Right defaultKeyMap)"
  by (simp_all add: key_Matches_def defaultKeyMap_def)

lemma expand_after_collapse: "expanded n \<Longrightarrow> set_expanded True (set_expanded False n) = n"
  by (cases n) (simp add: set_expanded_def)

text \<open>
  Claim C7. In every state that the session reaches, when the cursor is on a directory that
  is expanded and has a child, the collapse key collapses that directory (the tree holds it
  collapsed, and the visible sequence is the one of that tree), and the expand key that
  follows yields the visible sequence and the tree of before the collapse. The selected
  flag of every node is the same in the three states.
\<close>

theorem collapse_then_expand_restores:
  assumes run: "run_msgs (newModel t b inR allowB) msgs = Inr m"
    and cur: "current_node m = Inr (p, n)"
    and dir: "isDir n" and ex: "expanded n" and ch: "children n \<noteq> []"
  shows "\<exists>m1 m2.
           Update m (KeyMsg ''left'') = Inr (m1, NoCmd) \<and>
           node_at (root_m m1) p = Some (set_expanded False n) \<and>
           vis m1 = flattenVisible (root_m m1) \<and>
           Update m1 (KeyMsg ''right'') = Inr (m2, NoCmd) \<and>
           vis m2 = vis m \<and> root_m m2 = root_m m \<and>
           (\<forall>q. map_option selected (node_at (root_m m1) q) =
                map_option selected (node_at (root_m m) q))"
proof -
  from run_msgs_inv [OF model_inv_newModel, of t b inR allowB msgs] run
  have inv: "model_inv m" by auto
  then have v: "vis m = flattenVisible (root_m m)" by (simp add: model_inv_def)
  from current_node_inv [OF inv] cur
  have at: "node_at (root_m m) p = Some n" and mem: "p \<in> set (flattenVisible (root_m m))"
    by auto
  let ?r1 = "update_at (set_expanded False) p (root_m m)"
  let ?m1 = "set_expansion False p m"
  have mem1: "p \<in> set (flattenVisible ?r1)"
    using mem by (simp add: set_flattenVisible visible_update_at)
  note f1 = set_expansion_fields [OF mem1]
  have at1: "node_at ?r1 p = Some (set_expanded False n)"
    by (simp add: node_at_update_at at)
  have left: "Update m (KeyMsg ''left'') = Inr (?m1, NoCmd)"
    using cur dir ex ch by (simp add: Update_def keys_left)
  have cur1: "current_node ?m1 = Inr (p, set_expanded False n)"
  proof (rule current_node_at)
    show "0 \<le> cursor ?m1" "cursor ?m1 < int (length (vis ?m1))" "vis ?m1 ! nat (cursor ?m1) = p"
      using f1 by blast+
    show "node_at (root_m ?m1) p = Some (set_expanded False n)" using f1 at1 by simp
  qed
  let ?m2 = "set_expansion True p ?m1"
  have right: "Update ?m1 (KeyMsg ''right'') = Inr (?m2, NoCmd)"
    using cur1 dir ch by (simp add: Update_def keys_right)
  have "update_at (set_expanded True) p ?r1 =
        update_at (\<lambda>n. set_expanded True (set_expanded False n)) p (root_m m)"
    by (rule update_at_twice)
  also have "\<dots> = root_m m"
    using at expand_after_collapse [OF ex] by (rule update_at_same)
  finally have r2: "update_at (set_expanded True) p ?r1 = root_m m" .
  have mem2: "p \<in> set (flattenVisible (update_at (set_expanded True) p (root_m ?m1)))"
    using f1 r2 mem by simp
  from set_expansion_fields [OF mem2] f1 r2
  have root2: "root_m ?m2 = root_m m" and vis2: "vis ?m2 = vis m"
    by (simp_all add: v)
  have sel: "map_option selected (node_at (root_m ?m1) q) =
             map_option selected (node_at (root_m m) q)" for q
    using f1 by (simp add: selected_update_at)
  from left right at1 f1 root2 vis2 sel show ?thesis by auto
qed

theorem collapse_then_expand_restores_witness:
  "run_msgs
     (newModel
        (Node ''.'' ''.'' True
           [Node ''a'' ''a'' True [Node ''b'' ''a/b'' False [] 2 False True] 1 True False,
            Node ''c'' ''c'' False [] 1 False False] 0 True False)
        [] False False)
     [KeyMsg ''down''] =
   Inr \<lparr>root_m =
          Node ''.'' ''.'' True
            [Node ''a'' ''a'' True [Node ''b'' ''a/b'' False [] 2 False True] 1 True False,
             Node ''c'' ''c'' False [] 1 False False] 0 True False,
        vis = [[], [0], [0, 0], [1]], cursor = 1, offset = 1, width = 0, height = 0,
        base = [], inRepo = False, allowBinary = False, selectedCount = 0,
        aborted = False, confirmed = False\<rparr> \<and>
   Update
     \<lparr>root_m =
          Node ''.'' ''.'' True
            [Node ''a'' ''a'' True [Node ''b'' ''a/b'' False [] 2 False True] 1 True False,
             Node ''c'' ''c'' False [] 1 False False] 0 True False,
        vis = [[], [0], [0, 0], [1]], cursor = 1, offset = 1, width = 0, height = 0,
        base = [], inRepo = False, allowBinary = False, selectedCount = 0,
        aborted = False, confirmed = False\<rparr>
     (KeyMsg ''left'') =
   Inr (\<lparr>root_m =
          Node ''.'' ''.'' True
            [Node ''a'' ''a'' True [Node ''b'' ''a/b'' False [] 2 False True] 1 False False,
             Node ''c'' ''c'' False [] 1 False False] 0 True False,
        vis = [[], [0], [1]], cursor = 1, offset = 1, width = 0, height = 0,
        base = [], inRepo = False, allowBinary = False, selectedCount = 0,
        aborted = False, confirmed = False\<rparr>, NoCmd) \<and>
   (\<exists>m2. Update
     \<lparr>root_m =
          Node ''.'' ''.'' True
            [Node ''a'' ''a'' True [Node ''b'' ''a/b'' False [] 2 False True] 1 False False,
             Node ''c'' ''c'' False [] 1 False False] 0 True False,
        vis = [[], [0], [1]], cursor = 1, offset = 1, width = 0, height = 0,
        base = [], inRepo = False, allowBinary = False, selectedCount = 0,
        aborted = False, confirmed = False\<rparr>
     (KeyMsg ''right'') = Inr (m2, NoCmd) \<and>
     vis m2 = [[], [0], [0, 0], [1]] \<and>
     root_m m2 =
       Node ''.'' ''.'' True
         [Node ''a'' ''a'' True [Node ''b'' ''a/b'' False [] 2 False True] 1 True False,
          Node ''c'' ''c'' False [] 1 False False] 0 True False)"
proof -
  let ?a = "Node ''a'' ''a'' True [Node ''b'' ''a/b'' False [] 2 False True] 1 True False"
  let ?t = "Node ''.'' ''.'' True [?a, Node ''c'' ''c'' False [] 1 False False] 0 True False"
  let ?m = "\<lparr>root_m = ?t, vis = [[], [0], [0, 0], [1]], cursor = 1, offset = 1, width = 0,
             height = 0, base = [], inRepo = False, allowBinary = False, selectedCount = 0,
             aborted = False, confirmed = False\<rparr>"
  let ?m1 = "\<lparr>root_m =
          Node ''.'' ''.'' True
            [Node ''a'' ''a'' True [Node ''b'' ''a/b'' False [] 2 False True] 1 False False,
             Node ''c'' ''c'' False [] 1 False False] 0 True False,
        vis = [[], [0], [1]], cursor = 1, offset = 1, width = 0, height = 0,
        base = [], inRepo = False, allowBinary = False, selectedCount = 0,
        aborted = False, confirmed = False\<rparr>"
  have run: "run_msgs (newModel ?t [] False False) [KeyMsg ''down''] = Inr ?m"
    by code_simp
  have cur: "current_node ?m = Inr ([0], ?a)" by code_simp
  have left: "Update ?m (KeyMsg ''left'') = Inr (?m1, NoCmd)" by code_simp
  from collapse_then_expand_restores [OF run cur] left
  obtain m2 where "Update ?m1 (KeyMsg ''right'') = Inr (m2, NoCmd)"
    and "vis m2 = vis ?m" and "root_m m2 = root_m ?m"
    by auto
  then have "\<exists>m2. Update ?m1 (KeyMsg ''right'') = Inr (m2, NoCmd) \<and>
      vis m2 = [[], [0], [0, 0], [1]] \<and> root_m m2 = ?t"
    by simp
  with run left show ?thesis by simp
qed

section \<open>The selected files\<close>

lemma root_ensureCursorVisible: "root_m (ensureCursorVisible m) = root_m m"
  by (simp add: ensureCursorVisible_def Let_def)

lemma root_set_expansion:
  "root_m (set_expansion e p m) = update_at (set_expanded e) p (root_m m)"
  by (simp add: set_expansion_def Let_def root_ensureCursorVisible)

lemma Update_root:
  assumes upd: "Update m message = Inr (m', c)" and P: "P (root_m m)"
    and ex: "\<And>p e t. P t \<Longrightarrow> P (update_at (set_expanded e) p t)"
    and sel: "\<And>p s t. P t \<Longrightarrow> P (update_at (set_selected s) p t)"
  shows "P (root_m m')"
proof (cases message)
  case (WindowSizeMsg w h)
  with upd P show ?thesis by (auto simp: Update_def root_ensureCursorVisible)
next
  case OtherMsg
  with upd P show ?thesis by (auto simp: Update_def)
next
  case (KeyMsg k)
  show ?thesis
  proof (cases "current_node m")
    case (Inl e)
    with upd KeyMsg P show ?thesis
      by (auto simp: Update_def root_ensureCursorVisible split: if_splits)
  next
    case (Inr a)
    obtain p n where "a = (p, n)" by (cases a)
    with Inr upd KeyMsg P ex [OF P] sel [OF P] show ?thesis
      by (auto simp: Update_def Let_def root_ensureCursorVisible root_set_expansion
          split: if_splits)
  qed
qed

lemma run_msgs_root:
  assumes P: "P (root_m m)"
    and ex: "\<And>p e t. P t \<Longrightarrow> P (update_at (set_expanded e) p t)"
    and sel: "\<And>p s t. P t \<Longrightarrow> P (update_at (set_selected s) p t)"
  shows "run_msgs m msgs = Inr m' \<Longrightarrow> P (root_m m')"
  using P
proof (induction msgs arbitrary: m)
  case Nil
  then show ?case by simp
next
  case (Cons x xs)
  from Cons.prems(1) obtain m1 c where u: "Update m x = Inr (m1, c)"
    and r: "run_msgs m1 xs = Inr m'"
    by (auto split: sum.splits)
  from Update_root [of m x m1 c P, OF u Cons.prems(2) ex sel] have "P (root_m m1)" .
  from Cons.IH [OF r this] show ?case .
qed

lemma wf_tree_update_at:
  assumes "\<And>n. isDir (f n) = isDir n \<and> children (f n) = children n \<and> depth (f n) = depth n"
  shows "wf_tree t \<Longrightarrow> wf_tree (update_at f p t)"
proof (induction p arbitrary: t)
  case Nil
  with assms [of t] show ?case by (simp add: wf_tree_sel [of "f t"] wf_tree_sel [of t])
next
  case (Cons i p)
  show ?case
  proof (cases "i < length (children t)")
    case False
    with Cons.prems show ?thesis by simp
  next
    case True
    from Cons.prems True have wc: "wf_tree (children t ! i)"
      by (auto simp: wf_tree_sel [of t])
    have d: "depth (update_at f p c) = depth c" for c
      using assms by (cases p) (simp_all split: if_splits)
    from wf_tree_update [OF Cons.prems True Cons.IH [OF wc] d] True show ?thesis by simp
  qed
qed

lemma walk_selected_sel:
  "walk_selected n =
     (if \<not> isDir n \<and> selected n then [filepath_ToSlash (relBase n)] else []) @
     (if isDir n then walk_selected_children (children n) else [])"
  by (cases n) simp

lemma walk_selected_children_concat:
  "walk_selected_children cs = concat (map walk_selected cs)"
  by (induction cs) simp_all

lemma selected_paths_unfold:
  "selected_paths t =
     (if \<not> isDir t \<and> selected t then {filepath_ToSlash (relBase t)} else {}) \<union>
     (\<Union>c \<in> set (children t). selected_paths c)"
proof (rule set_eqI)
  fix x
  show "x \<in> selected_paths t \<longleftrightarrow>
        x \<in> (if \<not> isDir t \<and> selected t then {filepath_ToSlash (relBase t)} else {}) \<union>
            (\<Union>c \<in> set (children t). selected_paths c)"
  proof
    assume "x \<in> selected_paths t"
    then obtain p n where x: "x = filepath_ToSlash (relBase n)" and at: "node_at t p = Some n"
      and f: "\<not> isDir n" "selected n"
      unfolding selected_paths_def by blast
    show "x \<in> (if \<not> isDir t \<and> selected t then {filepath_ToSlash (relBase t)} else {}) \<union>
            (\<Union>c \<in> set (children t). selected_paths c)"
    proof (cases p)
      case Nil
      with at x f show ?thesis by simp
    next
      case (Cons i p')
      with at have i: "i < length (children t)" and at': "node_at (children t ! i) p' = Some n"
        by (auto split: if_splits)
      from at' x f have "x \<in> selected_paths (children t ! i)"
        unfolding selected_paths_def by blast
      with i show ?thesis by auto
    qed
  next
    assume "x \<in> (if \<not> isDir t \<and> selected t then {filepath_ToSlash (relBase t)} else {}) \<union>
            (\<Union>c \<in> set (children t). selected_paths c)"
    then consider "\<not> isDir t" "selected t" "x = filepath_ToSlash (relBase t)"
      | c where "c \<in> set (children t)" "x \<in> selected_paths c"
      by (auto split: if_splits)
    then show "x \<in> selected_paths t"
    proof cases
      case 1
      then have "node_at t [] = Some t \<and> \<not> isDir t \<and> selected t \<and>
          x = filepath_ToSlash (relBase t)" by simp
      then show ?thesis unfolding selected_paths_def by blast
    next
      case 2
      then obtain i where i: "i < length (children t)" and c: "c = children t ! i"
        by (auto simp: in_set_conv_nth)
      from 2 obtain p n where "x = filepath_ToSlash (relBase n)" "node_at c p = Some n"
        "\<not> isDir n" "selected n"
        unfolding selected_paths_def by blast
      with i c have "node_at t (i # p) = Some n \<and> \<not> isDir n \<and> selected n \<and>
          x = filepath_ToSlash (relBase n)" by simp
      then show ?thesis unfolding selected_paths_def by blast
    qed
  qed
qed

lemma set_walk_selected:
  "wf_tree t \<Longrightarrow> set (walk_selected t) = selected_paths t"
proof (induction t)
  case (Node nm rel d cs dp ex sel)
  let ?t = "Node nm rel d cs dp ex sel"
  have ih: "set (walk_selected c) = selected_paths c" if "c \<in> set cs" for c
    using Node.IH [OF that] Node.prems that by simp
  have unf: "selected_paths ?t =
      (if \<not> d \<and> sel then {filepath_ToSlash rel} else {}) \<union> (\<Union>c \<in> set cs. selected_paths c)"
    using selected_paths_unfold [of ?t] by simp
  show ?case
  proof (cases d)
    case True
    have "set (walk_selected_children cs) = (\<Union>c \<in> set cs. selected_paths c)"
      using ih by (simp add: walk_selected_children_concat)
    with True show ?thesis unfolding unf by simp
  next
    case False
    with Node.prems have "cs = []" by simp
    with False show ?thesis unfolding unf by simp
  qed
qed

lemma walk_selected_same_selection:
  "(\<And>q. map_option (\<lambda>n. (isDir n, selected n, relBase n)) (node_at t q) =
         map_option (\<lambda>n. (isDir n, selected n, relBase n)) (node_at t' q)) \<Longrightarrow>
   walk_selected t = walk_selected t'"
proof (induction t arbitrary: t')
  case (Node nm rel d cs dp ex sel)
  let ?t = "Node nm rel d cs dp ex sel"
  note H = Node.prems
  from H [of "[]"] have top: "isDir t' = d" "selected t' = sel" "relBase t' = rel" by simp_all
  have len: "length (children t') = length cs"
  proof (rule ccontr)
    assume ne: "length (children t') \<noteq> length cs"
    let ?i = "min (length (children t')) (length cs)"
    from ne have "(?i < length cs) \<noteq> (?i < length (children t'))" by auto
    with H [of "[?i]"] show False by (auto split: if_splits)
  qed
  have each: "walk_selected (cs ! i) = walk_selected (children t' ! i)" if i: "i < length cs" for i
  proof (rule Node.IH)
    show "cs ! i \<in> set cs" using i by simp
    fix q
    from H [of "i # q"] i len
    show "map_option (\<lambda>n. (isDir n, selected n, relBase n)) (node_at (cs ! i) q) =
          map_option (\<lambda>n. (isDir n, selected n, relBase n)) (node_at (children t' ! i) q)"
      by simp
  qed
  have "map walk_selected cs = map walk_selected (children t')"
    by (rule nth_equalityI) (simp_all add: len each)
  then have "walk_selected_children cs = walk_selected_children (children t')"
    by (simp add: walk_selected_children_concat)
  with top show ?case by (simp add: walk_selected_sel [of t'])
qed

lemma sel_positions_sel:
  "sel_positions n =
     (if \<not> isDir n \<and> selected n then [[]] else []) @
     (if isDir n then sel_positions_children 0 (children n) else [])"
  by (cases n) simp

lemma sel_positions_children_shape:
  "q \<in> set (sel_positions_children k cs) \<Longrightarrow>
     \<exists>i p. q = (k + i) # p \<and> i < length cs \<and> p \<in> set (sel_positions (cs ! i))"
proof (induction cs arbitrary: k)
  case Nil
  then show ?case by simp
next
  case (Cons c cs)
  from Cons.prems consider (here) p where "q = k # p" "p \<in> set (sel_positions c)"
    | (later) "q \<in> set (sel_positions_children (Suc k) cs)"
    by auto
  then show ?case
  proof cases
    case here
    then have "q = (k + 0) # p \<and> 0 < length (c # cs) \<and> p \<in> set (sel_positions ((c # cs) ! 0))"
      by simp
    then show ?thesis by blast
  next
    case later
    from Cons.IH [OF later] obtain i p where "q = (Suc k + i) # p" "i < length cs"
      "p \<in> set (sel_positions (cs ! i))" by blast
    then have "q = (k + Suc i) # p \<and> Suc i < length (c # cs) \<and>
        p \<in> set (sel_positions ((c # cs) ! Suc i))" by simp
    then show ?thesis by blast
  qed
qed

lemma sel_positions_children_mem:
  "i < length cs \<Longrightarrow> p \<in> set (sel_positions (cs ! i)) \<Longrightarrow>
     (k + i) # p \<in> set (sel_positions_children k cs)"
proof (induction cs arbitrary: k i)
  case Nil
  then show ?case by simp
next
  case (Cons c cs)
  show ?case
  proof (cases i)
    case 0
    with Cons.prems show ?thesis by simp
  next
    case (Suc j)
    with Cons.prems have "j < length cs" "p \<in> set (sel_positions (cs ! j))" by simp_all
    from Cons.IH [OF this, of "Suc k"] Suc show ?thesis by simp
  qed
qed

lemma distinct_sel_positions_children:
  "(\<And>c. c \<in> set cs \<Longrightarrow> distinct (sel_positions c)) \<Longrightarrow>
     distinct (sel_positions_children k cs)"
proof (induction cs arbitrary: k)
  case Nil
  show ?case by simp
next
  case (Cons c cs)
  have d1: "distinct (map ((#) k) (sel_positions c))"
    using Cons.prems [of c] by (simp add: distinct_map)
  have d2: "distinct (sel_positions_children (Suc k) cs)"
    by (rule Cons.IH) (simp add: Cons.prems)
  have "set (map ((#) k) (sel_positions c)) \<inter> set (sel_positions_children (Suc k) cs) = {}"
  proof (rule ccontr)
    assume "set (map ((#) k) (sel_positions c)) \<inter> set (sel_positions_children (Suc k) cs) \<noteq> {}"
    then obtain q where a: "q \<in> set (map ((#) k) (sel_positions c))"
      and b: "q \<in> set (sel_positions_children (Suc k) cs)" by blast
    from a obtain p where "q = k # p" by auto
    moreover from sel_positions_children_shape [OF b] obtain i p' where "q = (Suc k + i) # p'"
      by blast
    ultimately show False by simp
  qed
  with d1 d2 show ?case by simp
qed

lemma distinct_sel_positions: "distinct (sel_positions t)"
proof (induction t)
  case (Node nm rel d cs dp ex sel)
  have "distinct (sel_positions_children 0 cs)"
    by (rule distinct_sel_positions_children) (rule Node.IH)
  moreover have "[] \<notin> set (sel_positions_children 0 cs)"
    using sel_positions_children_shape [of "[]" 0 cs] by auto
  ultimately show ?case by simp
qed

lemma set_sel_positions:
  "wf_tree t \<Longrightarrow> set (sel_positions t) = selected_file_positions t"
proof (induction t)
  case (Node nm rel d cs dp ex sel)
  let ?t = "Node nm rel d cs dp ex sel"
  have ih: "set (sel_positions c) = selected_file_positions c" if "c \<in> set cs" for c
    using Node.IH [OF that] Node.prems that by simp
  show ?case
  proof (rule set_eqI)
    fix q
    show "q \<in> set (sel_positions ?t) \<longleftrightarrow> q \<in> selected_file_positions ?t"
    proof (cases q)
      case Nil
      have "[] \<notin> set (sel_positions_children 0 cs)"
        using sel_positions_children_shape [of "[]" 0 cs] by auto
      with Nil show ?thesis by (auto simp: selected_file_positions_def)
    next
      case (Cons i p)
      show ?thesis
      proof (cases d)
        case False
        with Node.prems have "cs = []" by simp
        with False Cons show ?thesis by (simp add: selected_file_positions_def)
      next
        case True
        have "i # p \<in> set (sel_positions_children 0 cs) \<longleftrightarrow>
              i < length cs \<and> p \<in> set (sel_positions (cs ! i))"
          using sel_positions_children_shape [of "i # p" 0 cs]
            sel_positions_children_mem [of i cs p 0] by auto
        also have "\<dots> \<longleftrightarrow> i < length cs \<and> p \<in> selected_file_positions (cs ! i)"
          using ih by auto
        also have "\<dots> \<longleftrightarrow> i # p \<in> selected_file_positions ?t"
          by (auto simp: selected_file_positions_def)
        finally show ?thesis using True Cons by simp
      qed
    qed
  qed
qed

lemma path_at_Cons: "i < length (children t) \<Longrightarrow> path_at t (i # p) = path_at (children t ! i) p"
  by (simp add: path_at_def)

lemma walk_selected_children_positions:
  "(\<And>c. c \<in> set cs \<Longrightarrow> walk_selected c = map (path_at c) (sel_positions c)) \<Longrightarrow>
   walk_selected_children cs =
     map (\<lambda>q. path_at (cs ! (hd q - k)) (tl q)) (sel_positions_children k cs)"
proof (induction cs arbitrary: k)
  case Nil
  show ?case by simp
next
  case (Cons c cs)
  have c: "walk_selected c = map (path_at c) (sel_positions c)" by (rule Cons.prems) simp
  have ih: "walk_selected_children cs =
      map (\<lambda>q. path_at (cs ! (hd q - Suc k)) (tl q)) (sel_positions_children (Suc k) cs)"
    by (rule Cons.IH) (simp add: Cons.prems)
  have "map (\<lambda>q. path_at (cs ! (hd q - Suc k)) (tl q)) (sel_positions_children (Suc k) cs) =
        map (\<lambda>q. path_at ((c # cs) ! (hd q - k)) (tl q)) (sel_positions_children (Suc k) cs)"
  proof (rule map_cong [OF refl])
    fix q assume "q \<in> set (sel_positions_children (Suc k) cs)"
    from sel_positions_children_shape [OF this] obtain i p where "q = (Suc k + i) # p" by blast
    then show "path_at (cs ! (hd q - Suc k)) (tl q) = path_at ((c # cs) ! (hd q - k)) (tl q)"
      by simp
  qed
  with c ih show ?case by (simp add: o_def)
qed

lemma walk_selected_positions:
  "walk_selected t = map (path_at t) (sel_positions t)"
proof (induction t)
  case (Node nm rel d cs dp ex sel)
  let ?t = "Node nm rel d cs dp ex sel"
  have "walk_selected_children cs =
      map (\<lambda>q. path_at (cs ! (hd q - 0)) (tl q)) (sel_positions_children 0 cs)"
    by (rule walk_selected_children_positions) (rule Node.IH)
  also have "\<dots> = map (path_at ?t) (sel_positions_children 0 cs)"
  proof (rule map_cong [OF refl])
    fix q assume "q \<in> set (sel_positions_children 0 cs)"
    from sel_positions_children_shape [OF this] obtain i p where "q = (0 + i) # p" "i < length cs"
      by blast
    then show "path_at (cs ! (hd q - 0)) (tl q) = path_at ?t q"
      by (simp add: path_at_Cons)
  qed
  finally show ?case by (simp add: path_at_def)
qed

lemma mset_walk_selected:
  assumes "wf_tree t"
  shows "mset (walk_selected t) = image_mset (path_at t) (mset_set (selected_file_positions t))"
proof -
  have "mset_set (selected_file_positions t) = mset (sel_positions t)"
    using set_sel_positions [OF assms] distinct_sel_positions [of t]
    by (metis mset_set_set)
  then show ?thesis by (simp add: walk_selected_positions)
qed

lemma finite_selected_file_positions: "wf_tree t \<Longrightarrow> finite (selected_file_positions t)"
  using set_sel_positions [of t] by (metis List.finite_set)

text \<open>
  Claim C3. For the tree of every state that a session on a tree of \<open>buildTree\<close> reaches,
  \<open>selectedFiles\<close> is sorted (the order of strings is the lexicographic order of their bytes),
  and it holds exactly the selected files: as a multiset it is the paths of the positions
  of the tree at which a file node with the \<open>selected\<close> flag stands, one entry for each such
  position (there are finitely many). A sorted list is determined by its multiset, so this
  fixes the list. The list does not depend on the order of the traversal: any model whose
  walk collects the same paths, in whatever order, has the same list. It does not depend
  on the way the selection came about: any model whose tree has the same files with the
  same flags at the same positions has the same list, whatever was toggled, expanded or
  collapsed, and in whatever order.
\<close>

theorem selectedFiles_sorted_selection:
  assumes build: "buildTree startRelSlash files = Inr t"
    and run: "run_msgs (newModel t b inR allowB) msgs = Inr m"
  shows "sorted (selectedFiles m) \<and>
         finite {p. \<exists>n. node_at (root_m m) p = Some n \<and> \<not> isDir n \<and> selected n} \<and>
         mset (selectedFiles m) =
           image_mset (\<lambda>p. filepath_ToSlash (relBase (the (node_at (root_m m) p))))
             (mset_set {p. \<exists>n. node_at (root_m m) p = Some n \<and> \<not> isDir n \<and> selected n}) \<and>
         set (selectedFiles m) =
           {filepath_ToSlash (relBase n) | p n.
              node_at (root_m m) p = Some n \<and> \<not> isDir n \<and> selected n} \<and>
         (\<forall>m' :: model. mset (walk_selected (root_m m')) = mset (walk_selected (root_m m)) \<longrightarrow>
               selectedFiles m' = selectedFiles m) \<and>
         (\<forall>m' :: model. (\<forall>q. map_option (\<lambda>n. (isDir n, selected n, relBase n)) (node_at (root_m m') q) =
                    map_option (\<lambda>n. (isDir n, selected n, relBase n)) (node_at (root_m m) q)) \<longrightarrow>
               selectedFiles m' = selectedFiles m)"
proof -
  from buildTree_wf_ordered [OF build] have w0: "wf_tree (root_m (newModel t b inR allowB))"
    by (simp add: newModel_def)
  have w: "wf_tree (root_m m)"
  proof (rule run_msgs_root [where P = wf_tree, OF w0 _ _ run])
    show "wf_tree (update_at (set_expanded e) p u)" if "wf_tree u" for p e u
      using that by (intro wf_tree_update_at) simp_all
    show "wf_tree (update_at (set_selected s) p u)" if "wf_tree u" for p s u
      using that by (intro wf_tree_update_at) simp_all
  qed
  have 1: "sorted (selectedFiles m)" by (simp add: selectedFiles_def)
  have 2: "finite {p. \<exists>n. node_at (root_m m) p = Some n \<and> \<not> isDir n \<and> selected n}"
    using finite_selected_file_positions [OF w] by (simp add: selected_file_positions_def)
  have 3: "mset (selectedFiles m) =
           image_mset (\<lambda>p. filepath_ToSlash (relBase (the (node_at (root_m m) p))))
             (mset_set {p. \<exists>n. node_at (root_m m) p = Some n \<and> \<not> isDir n \<and> selected n})"
    using mset_walk_selected [OF w]
    by (simp add: selectedFiles_def selected_file_positions_def path_at_def [abs_def])
  have "set (walk_selected (root_m m)) = selected_paths (root_m m)"
    using w by (rule set_walk_selected)
  then have 4: "set (selectedFiles m) =
      {filepath_ToSlash (relBase n) | p n.
         node_at (root_m m) p = Some n \<and> \<not> isDir n \<and> selected n}"
    by (simp add: selectedFiles_def selected_paths_def)
  have 5: "selectedFiles m' = selectedFiles m"
    if "mset (walk_selected (root_m m')) = mset (walk_selected (root_m m))" for m' :: model
  proof -
    from that have "mset (sort (walk_selected (root_m m))) = mset (walk_selected (root_m m'))"
      by simp
    then have "sort (walk_selected (root_m m')) = sort (walk_selected (root_m m))"
      by (rule properties_for_sort) simp
    then show ?thesis by (simp add: selectedFiles_def)
  qed
  have 6: "selectedFiles m' = selectedFiles m"
    if "\<forall>q. map_option (\<lambda>n. (isDir n, selected n, relBase n)) (node_at (root_m m') q) =
              map_option (\<lambda>n. (isDir n, selected n, relBase n)) (node_at (root_m m) q)"
    for m' :: model
  proof -
    from that have "walk_selected (root_m m') = walk_selected (root_m m)"
      by (intro walk_selected_same_selection) simp
    then show ?thesis by (simp add: selectedFiles_def)
  qed
  from 1 2 3 4 5 6 show ?thesis by blast
qed

theorem selectedFiles_sorted_selection_witness:
  "buildTree ''.'' [''b.go'', ''dir/z.md'', ''a.go''] =
     Inr (Node ''.'' ''.'' True
           [Node ''dir'' ''dir'' True [Node ''z.md'' ''dir/z.md'' False [] 2 False False] 1 True False,
            Node ''a.go'' ''a.go'' False [] 1 False False,
            Node ''b.go'' ''b.go'' False [] 1 False False]
           0 True False) \<and>
   run_msgs
     (newModel
        (Node ''.'' ''.'' True
           [Node ''dir'' ''dir'' True [Node ''z.md'' ''dir/z.md'' False [] 2 False False] 1 True False,
            Node ''a.go'' ''a.go'' False [] 1 False False,
            Node ''b.go'' ''b.go'' False [] 1 False False]
           0 True False)
        ''/r'' False False)
     [KeyMsg ''down'', KeyMsg ''down'', KeyMsg ''down'', KeyMsg ''down'', KeyMsg '' '',
      KeyMsg ''up'', KeyMsg ''up'', KeyMsg '' '', KeyMsg ''down'', KeyMsg '' '', KeyMsg ''enter''] =
     Inr \<lparr>root_m =
        (Node ''.'' ''.'' True
           [Node ''dir'' ''dir'' True [Node ''z.md'' ''dir/z.md'' False [] 2 False True] 1 True False,
            Node ''a.go'' ''a.go'' False [] 1 False True,
            Node ''b.go'' ''b.go'' False [] 1 False True]
           0 True False),
      vis = [[], [0], [0, 0], [1], [2]], cursor = 3, offset = 3, width = 0, height = 0,
      base = ''/r'', inRepo = False, allowBinary = False, selectedCount = 3,
      aborted = False, confirmed = True\<rparr> \<and>
   walk_selected
     (Node ''.'' ''.'' True
           [Node ''dir'' ''dir'' True [Node ''z.md'' ''dir/z.md'' False [] 2 False True] 1 True False,
            Node ''a.go'' ''a.go'' False [] 1 False True,
            Node ''b.go'' ''b.go'' False [] 1 False True]
           0 True False) = [''dir/z.md'', ''a.go'', ''b.go''] \<and>
   selectedFiles
     \<lparr>root_m =
        (Node ''.'' ''.'' True
           [Node ''dir'' ''dir'' True [Node ''z.md'' ''dir/z.md'' False [] 2 False True] 1 True False,
            Node ''a.go'' ''a.go'' False [] 1 False True,
            Node ''b.go'' ''b.go'' False [] 1 False True]
           0 True False),
      vis = [[], [0], [0, 0], [1], [2]], cursor = 3, offset = 3, width = 0, height = 0,
      base = ''/r'', inRepo = False, allowBinary = False, selectedCount = 3,
      aborted = False, confirmed = True\<rparr> = [''a.go'', ''b.go'', ''dir/z.md''] \<and>
   sorted [''a.go'', ''b.go'', ''dir/z.md''] \<and>
   mset [''a.go'', ''b.go'', ''dir/z.md''] =
     image_mset
       (\<lambda>p. filepath_ToSlash (relBase (the (node_at
          (Node ''.'' ''.'' True
           [Node ''dir'' ''dir'' True [Node ''z.md'' ''dir/z.md'' False [] 2 False True] 1 True False,
            Node ''a.go'' ''a.go'' False [] 1 False True,
            Node ''b.go'' ''b.go'' False [] 1 False True]
           0 True False) p))))
       (mset_set {p. \<exists>n. node_at
          (Node ''.'' ''.'' True
           [Node ''dir'' ''dir'' True [Node ''z.md'' ''dir/z.md'' False [] 2 False True] 1 True False,
            Node ''a.go'' ''a.go'' False [] 1 False True,
            Node ''b.go'' ''b.go'' False [] 1 False True]
           0 True False) p = Some n \<and> \<not> isDir n \<and> selected n})"
proof -
  let ?t = "(Node ''.'' ''.'' True
           [Node ''dir'' ''dir'' True [Node ''z.md'' ''dir/z.md'' False [] 2 False False] 1 True False,
            Node ''a.go'' ''a.go'' False [] 1 False False,
            Node ''b.go'' ''b.go'' False [] 1 False False]
           0 True False)"
  let ?r = "(Node ''.'' ''.'' True
           [Node ''dir'' ''dir'' True [Node ''z.md'' ''dir/z.md'' False [] 2 False True] 1 True False,
            Node ''a.go'' ''a.go'' False [] 1 False True,
            Node ''b.go'' ''b.go'' False [] 1 False True]
           0 True False)"
  let ?m = "\<lparr>root_m =
        (Node ''.'' ''.'' True
           [Node ''dir'' ''dir'' True [Node ''z.md'' ''dir/z.md'' False [] 2 False True] 1 True False,
            Node ''a.go'' ''a.go'' False [] 1 False True,
            Node ''b.go'' ''b.go'' False [] 1 False True]
           0 True False),
      vis = [[], [0], [0, 0], [1], [2]], cursor = 3, offset = 3, width = 0, height = 0,
      base = ''/r'', inRepo = False, allowBinary = False, selectedCount = 3,
      aborted = False, confirmed = True\<rparr>"
  let ?msgs = "[KeyMsg ''down'', KeyMsg ''down'', KeyMsg ''down'', KeyMsg ''down'', KeyMsg '' '',
      KeyMsg ''up'', KeyMsg ''up'', KeyMsg '' '', KeyMsg ''down'', KeyMsg '' '', KeyMsg ''enter'']"
  have b: "buildTree ''.'' [''b.go'', ''dir/z.md'', ''a.go''] = Inr ?t" by code_simp
  have r: "run_msgs (newModel ?t ''/r'' False False) ?msgs = Inr ?m" by code_simp
  have k: "walk_selected ?r = [''dir/z.md'', ''a.go'', ''b.go'']" by code_simp
  have v: "selectedFiles ?m = [''a.go'', ''b.go'', ''dir/z.md'']" by code_simp
  have rm: "root_m ?m = ?r" by simp
  note inst = selectedFiles_sorted_selection [OF b r]
  from inst have s: "sorted (selectedFiles ?m)" by blast
  from inst have ms: "mset (selectedFiles ?m) =
      image_mset (\<lambda>p. filepath_ToSlash (relBase (the (node_at (root_m ?m) p))))
        (mset_set {p. \<exists>n. node_at (root_m ?m) p = Some n \<and> \<not> isDir n \<and> selected n})"
    by blast
  from s have s': "sorted [''a.go'', ''b.go'', ''dir/z.md'']" unfolding v .
  from ms have ms': "mset [''a.go'', ''b.go'', ''dir/z.md''] =
      image_mset (\<lambda>p. filepath_ToSlash (relBase (the (node_at ?r p))))
        (mset_set {p. \<exists>n. node_at ?r p = Some n \<and> \<not> isDir n \<and> selected n})"
    unfolding v rm .
  from b r k v s' ms' show ?thesis by (intro conjI)
qed

end
